theory Spec2Isabelle
  imports
    Complex_Main
    "HOL-Library.AList"
    "HOL-Library.Char_ord"
    "HOL-Library.List_Lexorder"
begin

section \<open>Values\<close>

text \<open>
  A JavaScript \<^verbatim>\<open>number\<close> slot is modelled as a real, NaN, or \<^verbatim>\<open>undefined\<close> (what reading a
  missing property or array element yields). The infinities are not modelled, and
  rounding is modelled for the iteration counter of \<^verbatim>\<open>inverseKinematics\<close> only (see
  \<open>increment\<close> below); the engine only copies the other values, apart from the
  arithmetic operations below.
\<close>

datatype jsnum = Fin real | NaN | Undefined

fun jsadd :: "jsnum \<Rightarrow> jsnum \<Rightarrow> jsnum" where
  "jsadd (Fin a) (Fin b) = Fin (a + b)"
| "jsadd _ _ = NaN"

fun jsmul :: "jsnum \<Rightarrow> jsnum \<Rightarrow> jsnum" where
  "jsmul (Fin a) (Fin b) = Fin (a * b)"
| "jsmul _ _ = NaN"

text \<open>\<^verbatim>\<open>a > b\<close>: false as soon as one side is NaN or undefined.\<close>

fun jsgt :: "jsnum \<Rightarrow> jsnum \<Rightarrow> bool" where
  "jsgt (Fin a) (Fin b) = (a > b)"
| "jsgt _ _ = False"

text \<open>\<^verbatim>\<open>a < b\<close>, likewise.\<close>

fun jslt :: "jsnum \<Rightarrow> jsnum \<Rightarrow> bool" where
  "jslt (Fin a) (Fin b) = (a < b)"
| "jslt _ _ = False"

text \<open>\<^verbatim>\<open>count++\<close> on a counter that starts at 0. A double holds every integer up to
  \<open>2^53\<close> exactly, so the counter is a natural number and each increment below \<open>2^53\<close>
  is exact; \<open>2^53 + 1\<close> is not a double and rounds (to even) back to \<open>2^53\<close>, where the
  counter stays.\<close>

definition increment :: "nat \<Rightarrow> nat" where
  "increment count = (if count < 2 ^ 53 then count + 1 else count)"

text \<open>Array read \<^verbatim>\<open>xs[i]\<close> and write \<^verbatim>\<open>xs[i] = v\<close>: a read past the end is undefined, a
  write past the end extends the array with holes.\<close>

definition elemAt :: "jsnum list \<Rightarrow> nat \<Rightarrow> jsnum" where
  "elemAt xs i = (if i < length xs then xs ! i else Undefined)"

definition store :: "jsnum list \<Rightarrow> nat \<Rightarrow> jsnum \<Rightarrow> jsnum list" where
  "store xs i v =
     (if i < length xs then xs[i := v]
      else xs @ replicate (i - length xs) Undefined @ [v])"

text \<open>\<^verbatim>\<open>vec[this.qConfigIndex[label]] = v\<close>: when the label is not in the index the key is
  the string \<^verbatim>\<open>"undefined"\<close>, which no element read or \<^verbatim>\<open>length\<close> ever sees.\<close>

definition storeAt :: "jsnum list \<Rightarrow> nat option \<Rightarrow> jsnum \<Rightarrow> jsnum list" where
  "storeAt xs io v = (case io of None \<Rightarrow> xs | Some i \<Rightarrow> store xs i v)"

subsection \<open>Strings\<close>

definition startsWith :: "string \<Rightarrow> string \<Rightarrow> bool" where
  "startsWith p s = (take (length p) s = p)"

definition endsWith :: "string \<Rightarrow> string \<Rightarrow> bool" where
  "endsWith p s = (length p \<le> length s \<and> drop (length s - length p) s = p)"

fun includesStr :: "string \<Rightarrow> string \<Rightarrow> bool" where
  "includesStr p [] = (p = [])"
| "includesStr p (c # cs) = (startsWith p (c # cs) \<or> includesStr p cs)"

text \<open>\<^verbatim>\<open>jLabel.substring(0, jLabel.length - 2)\<close>\<close>

definition dropSuffix2 :: "string \<Rightarrow> string" where
  "dropSuffix2 s = take (length s - 2) s"

section \<open>The scene graph\<close>

text \<open>
  The \<^verbatim>\<open>Object3D\<close> tree under the engine's root is a store: the nodes in the order
  \<^verbatim>\<open>traverse\<close> visits them (the root first, at address 0), each with the address of its
  parent. The engine mutates \<^verbatim>\<open>rotation\<close> and, through
  \<^verbatim>\<open>updateMatrixWorld\<close>, the cached \<^verbatim>\<open>matrixWorld\<close>; names and parents stay.
\<close>

datatype Euler = Euler (ex: jsnum) (ey: jsnum) (ez: jsnum)

datatype Matrix4 = Matrix4 (elements: "jsnum list")

datatype Vector3 = Vector3 jsnum jsnum jsnum

record Object3D =
  name :: string
  rotation :: Euler
  parent :: "nat option"
  matrixWorld :: Matrix4

type_synonym scene = "Object3D list"

text \<open>\<^verbatim>\<open>number | Rot3Angles\<close>; \<^verbatim>\<open>isDictionary\<close> holds of the second form only.\<close>

datatype JointAngle = Number jsnum | Rot3Angles jsnum jsnum jsnum

text \<open>A JavaScript object used as a dictionary: its entries in the order \<^verbatim>\<open>for ... in\<close>
  enumerates them. \<^verbatim>\<open>o[k] = v\<close> is \<^const>\<open>AList.update\<close> (an existing key keeps its place),
  \<^verbatim>\<open>o[k]\<close> is \<^const>\<open>map_of\<close>. (A key the object does not hold reads as undefined; node
  names are taken not to be property names of \<^verbatim>\<open>Object.prototype\<close>, such as
  \<^verbatim>\<open>constructor\<close>, for which JavaScript answers with the inherited property.)\<close>

type_synonym JointAngles = "(string \<times> JointAngle) list"
type_synonym NameChildMap = "(string \<times> nat) list"
type_synonym LinkTransformations = "(string \<times> Matrix4) list"

datatype error = TypeError

text \<open>
  The operations of three.js the engine calls are parameters of the model: the world
  matrix \<^verbatim>\<open>updateMatrixWorld\<close> gives a node (from its parent's world matrix, the node's
  address and its rotation), \<^verbatim>\<open>subVectors\<close>, \<^verbatim>\<open>lengthSq\<close>, and the vector arithmetic of one
  coordinate-descent step of \<^verbatim>\<open>inverseKinematics\<close> (from the axis letter, the joint's world
  matrix, the effector position and the target: \<open>None\<close> where the source
  \<^verbatim>\<open>continue\<close>s on a degenerate projection, the angle otherwise), and the difference
  quotient \<^verbatim>\<open>pos2.clone().sub(pos).divideScalar(dq)\<close> of \<^verbatim>\<open>calcJacobian\<close>.
\<close>

record three =
  worldMatrix :: "Matrix4 option \<Rightarrow> nat \<Rightarrow> Euler \<Rightarrow> Matrix4"
  subVectors :: "Vector3 \<Rightarrow> Vector3 \<Rightarrow> Vector3"
  lengthSq :: "Vector3 \<Rightarrow> jsnum"
  ccdAngle :: "string \<Rightarrow> Matrix4 \<Rightarrow> Vector3 \<Rightarrow> Vector3 \<Rightarrow> jsnum option"
  finiteDifference :: "Vector3 \<Rightarrow> Vector3 \<Rightarrow> jsnum \<Rightarrow> Vector3"

record Kinematics =
  rootK :: nat
  mapK :: NameChildMap
  homePositionConfig :: JointAngles
  homePositionFwd :: LinkTransformations
  qConfigIndex :: "(string \<times> nat) list"
  qConfigIndexReversed :: "string list"
  qConfigLength :: nat
  yup :: bool

section \<open>Construction of the index\<close>

text \<open>\<^verbatim>\<open>getNameChildMap\<close>: \<^verbatim>\<open>traverse\<close> visits the nodes in store order; a later node of the
  same name replaces the earlier one.\<close>

fun getNameChildMapFrom :: "nat \<Rightarrow> scene \<Rightarrow> NameChildMap \<Rightarrow> NameChildMap" where
  "getNameChildMapFrom i [] m = m"
| "getNameChildMapFrom i (child # rest) m =
     getNameChildMapFrom (Suc i) rest (AList.update (name child) i m)"

definition getNameChildMap :: "scene \<Rightarrow> NameChildMap" where
  "getNameChildMap sc = getNameChildMapFrom 0 sc []"

text \<open>\<^verbatim>\<open>sortObjectKeys\<close>: the keys sorted by code unit, re-inserted in that order. (JavaScript
  enumerates keys that are array indices first; such a key carries no joint marker and no
  \<^verbatim>\<open>RJoint_\<close> prefix, so every loop below skips it.)\<close>

definition sortObjectKeys :: "(string \<times> 'a) list \<Rightarrow> (string \<times> 'a) list" where
  "sortObjectKeys obj =
     fold (\<lambda>key sortedObj. AList.update key (the (map_of obj key)) sortedObj)
       (sort (map fst obj)) []"

fun confIndexLoop ::
  "string list \<Rightarrow> (string \<times> nat) list \<Rightarrow> string list \<Rightarrow> nat
     \<Rightarrow> (string \<times> nat) list \<times> string list" where
  "confIndexLoop [] ind indRev count = (ind, indRev)"
| "confIndexLoop (joint # joints) ind indRev count =
     (if includesStr ''_XYZ_'' joint then
        confIndexLoop joints
          (AList.update (joint @ ''/z'') (count + 2)
            (AList.update (joint @ ''/y'') (count + 1)
              (AList.update (joint @ ''/x'') count ind)))
          (indRev @ [joint @ ''/x'', joint @ ''/y'', joint @ ''/z''])
          (count + 3)
      else if includesStr ''_Z_'' joint then
        confIndexLoop joints (AList.update joint count ind) (indRev @ [joint]) (count + 1)
      else confIndexLoop joints ind indRev count)"

definition confIndex :: "NameChildMap \<Rightarrow> (string \<times> nat) list \<times> string list" where
  "confIndex m = confIndexLoop (map fst m) [] [] 0"

text \<open>The constructor up to the index (source lines 45 to 52); the two home-position
  fields are assigned afterwards, by \<open>Kinematics_new\<close> below.\<close>

definition Kinematics_init :: "scene \<Rightarrow> bool \<Rightarrow> Kinematics" where
  "Kinematics_init sc yp =
     (let m = sortObjectKeys (getNameChildMap sc);
          (ind, indRev) = confIndex m
      in \<lparr> rootK = 0, mapK = m, homePositionConfig = [], homePositionFwd = [],
           qConfigIndex = ind, qConfigIndexReversed = indRev,
           qConfigLength = length indRev, yup = yp \<rparr>)"

section \<open>Configurations and configuration vectors\<close>

definition SENTINEL :: jsnum where
  "SENTINEL = Fin (- 1000)"

fun configToVectorLoop :: "(string \<times> nat) list \<Rightarrow> JointAngles \<Rightarrow> jsnum list \<Rightarrow> jsnum list" where
  "configToVectorLoop ind [] vec = vec"
| "configToVectorLoop ind ((joint, qv) # q) vec =
     configToVectorLoop ind q
       (case qv of
          Rot3Angles qx qy qz \<Rightarrow>
            storeAt
              (storeAt
                (storeAt vec (map_of ind (joint @ ''/x'')) qx)
                (map_of ind (joint @ ''/y'')) qy)
              (map_of ind (joint @ ''/z'')) qz
        | Number v \<Rightarrow> storeAt vec (map_of ind joint) v)"

definition configToVector :: "Kinematics \<Rightarrow> JointAngles \<Rightarrow> jsnum list" where
  "configToVector K q =
     configToVectorLoop (qConfigIndex K) q (replicate (qConfigLength K) SENTINEL)"

text \<open>The object \<^verbatim>\<open>q[key]\<close> that \<^verbatim>\<open>vectorToConfig\<close> assigns a field of: a fresh \<^verbatim>\<open>{}\<close> when
  \<^verbatim>\<open>q[key] === undefined\<close>, the object already there otherwise. A class body is strict
  code, so assigning a field of a number raises.\<close>

fun rotAt :: "JointAngle option \<Rightarrow> error + jsnum \<times> jsnum \<times> jsnum" where
  "rotAt None = Inr (Undefined, Undefined, Undefined)"
| "rotAt (Some (Number Undefined)) = Inr (Undefined, Undefined, Undefined)"
| "rotAt (Some (Number _)) = Inl TypeError"
| "rotAt (Some (Rot3Angles a b c)) = Inr (a, b, c)"

text \<open>The loop of \<^verbatim>\<open>vectorToConfig\<close> from position \<open>i\<close> on: the labels are
  \<^verbatim>\<open>qConfigIndexReversed\<close> from \<open>i\<close>, the values \<^verbatim>\<open>vec\<close> from \<open>i\<close>. Past the last label
  \<^verbatim>\<open>jLabel\<close> is undefined and \<^verbatim>\<open>jLabel.endsWith\<close> raises.\<close>

fun vectorToConfigLoop :: "string list \<Rightarrow> jsnum list \<Rightarrow> JointAngles \<Rightarrow> error + JointAngles" where
  "vectorToConfigLoop labels [] q = Inr q"
| "vectorToConfigLoop [] (v # vec) q = Inl TypeError"
| "vectorToConfigLoop (jLabel # labels) (v # vec) q =
     (if endsWith ''/x'' jLabel then
        (case rotAt (map_of q (dropSuffix2 jLabel)) of
           Inl e \<Rightarrow> Inl e
         | Inr (a, b, c) \<Rightarrow>
             vectorToConfigLoop labels vec
               (AList.update (dropSuffix2 jLabel) (Rot3Angles v b c) q))
      else if endsWith ''/y'' jLabel then
        (case rotAt (map_of q (dropSuffix2 jLabel)) of
           Inl e \<Rightarrow> Inl e
         | Inr (a, b, c) \<Rightarrow>
             vectorToConfigLoop labels vec
               (AList.update (dropSuffix2 jLabel) (Rot3Angles a v c) q))
      else if endsWith ''/z'' jLabel then
        (case rotAt (map_of q (dropSuffix2 jLabel)) of
           Inl e \<Rightarrow> Inl e
         | Inr (a, b, c) \<Rightarrow>
             vectorToConfigLoop labels vec
               (AList.update (dropSuffix2 jLabel) (Rot3Angles a b v) q))
      else vectorToConfigLoop labels vec (AList.update jLabel (Number v) q))"

definition vectorToConfig :: "Kinematics \<Rightarrow> jsnum list \<Rightarrow> error + JointAngles" where
  "vectorToConfig K vec = vectorToConfigLoop (qConfigIndexReversed K) vec []"

text \<open>\<^verbatim>\<open>child.rotation && child.rotation.isEuler\<close> holds of every \<^verbatim>\<open>Object3D\<close>.\<close>

fun getCurrentStateConfigLoop :: "scene \<Rightarrow> NameChildMap \<Rightarrow> JointAngles \<Rightarrow> JointAngles" where
  "getCurrentStateConfigLoop sc [] q = q"
| "getCurrentStateConfigLoop sc ((nm, child) # m) q =
     getCurrentStateConfigLoop sc m
       (if startsWith ''RJoint_'' nm then
          (if includesStr ''_XYZ_'' nm then
             AList.update nm
               (Rot3Angles (ex (rotation (sc ! child))) (ey (rotation (sc ! child)))
                  (ez (rotation (sc ! child)))) q
           else if includesStr ''_Z_'' nm then
             AList.update nm (Number (ez (rotation (sc ! child)))) q
           else q)
        else q)"

definition getCurrentStateConfig :: "Kinematics \<Rightarrow> scene \<Rightarrow> JointAngles" where
  "getCurrentStateConfig K sc = getCurrentStateConfigLoop sc (mapK K) []"

definition getCurrentStateVector :: "Kinematics \<Rightarrow> scene \<Rightarrow> jsnum list" where
  "getCurrentStateVector K sc = configToVector K (getCurrentStateConfig K sc)"

section \<open>Mutating the tree\<close>

text \<open>\<^verbatim>\<open>updateMatrixWorld(true)\<close> recomputes the world matrix of a node from its parent's
  cached one, then those of its descendants, which follow it in the store.\<close>

definition recompute :: "three \<Rightarrow> scene \<Rightarrow> nat \<Rightarrow> Object3D" where
  "recompute L sc j =
     (sc ! j)\<lparr> matrixWorld :=
        worldMatrix L
          (case parent (sc ! j) of None \<Rightarrow> None | Some p \<Rightarrow> Some (matrixWorld (sc ! p)))
          j (rotation (sc ! j)) \<rparr>"

fun updateDescendants :: "three \<Rightarrow> nat list \<Rightarrow> nat list \<Rightarrow> scene \<Rightarrow> scene" where
  "updateDescendants L visited [] sc = sc"
| "updateDescendants L visited (j # js) sc =
     (case parent (sc ! j) of
        None \<Rightarrow> updateDescendants L visited js sc
      | Some p \<Rightarrow>
          if p \<in> set visited
          then updateDescendants L (j # visited) js (sc[j := recompute L sc j])
          else updateDescendants L visited js sc)"

definition updateMatrixWorld :: "three \<Rightarrow> nat \<Rightarrow> scene \<Rightarrow> scene" where
  "updateMatrixWorld L c sc =
     updateDescendants L [c] [Suc c ..< length sc] (sc[c := recompute L sc c])"

text \<open>\<^verbatim>\<open>child.rotation.set(...)\<close> of \<^verbatim>\<open>setConfiguration\<close>.\<close>

definition newRotation :: "bool \<Rightarrow> JointAngle \<Rightarrow> Euler \<Rightarrow> Euler" where
  "newRotation yp qv r =
     (case qv of
        Rot3Angles qx qy qz \<Rightarrow> Euler qx qy qz
      | Number v \<Rightarrow> if \<not> yp then Euler (ex r) (ey r) v else Euler (ex r) v (ez r))"

text \<open>\<^verbatim>\<open>setConfiguration\<close>: \<^verbatim>\<open>this.map[joint]\<close> is undefined for a name that is not in the
  tree, and reading \<^verbatim>\<open>child.rotation\<close> then raises; the entries before it have been
  applied.\<close>

fun setConfiguration ::
  "three \<Rightarrow> Kinematics \<Rightarrow> JointAngles \<Rightarrow> scene \<Rightarrow> (error + unit) \<times> scene" where
  "setConfiguration L K [] sc = (Inr (), sc)"
| "setConfiguration L K ((joint, qv) # q) sc =
     (case map_of (mapK K) joint of
        None \<Rightarrow> (Inl TypeError, sc)
      | Some child \<Rightarrow>
          setConfiguration L K q
            (updateMatrixWorld L child
               (sc[child := (sc ! child)\<lparr> rotation :=
                   newRotation (yup K) qv (rotation (sc ! child)) \<rparr>])))"

section \<open>Forward kinematics\<close>

text \<open>\<^verbatim>\<open>forwardKinematicsRec\<close> from the root visits every node of the store, in store order.\<close>

definition forwardKinematicsRec :: "scene \<Rightarrow> LinkTransformations \<Rightarrow> LinkTransformations" where
  "forwardKinematicsRec sc links =
     fold (\<lambda>node l. AList.update (name node) (matrixWorld node) l) sc links"

definition forwardKinematics ::
  "three \<Rightarrow> Kinematics \<Rightarrow> JointAngles \<Rightarrow> Matrix4 \<Rightarrow> scene
     \<Rightarrow> (error + LinkTransformations) \<times> scene" where
  "forwardKinematics L K q A sc =
     (let q_old = getCurrentStateConfig K sc in
      case setConfiguration L K q sc of
        (Inl e, sc1) \<Rightarrow> (Inl e, sc1)
      | (Inr _, sc1) \<Rightarrow>
          (let links = forwardKinematicsRec sc1 [] in
           case setConfiguration L K q_old sc1 of
             (Inl e, sc2) \<Rightarrow> (Inl e, sc2)
           | (Inr _, sc2) \<Rightarrow> (Inr links, sc2)))"

definition qConfigStringToIndex :: "Kinematics \<Rightarrow> string \<Rightarrow> nat option" where
  "qConfigStringToIndex K label = map_of (qConfigIndex K) label"

definition getPosition :: "Matrix4 \<Rightarrow> Vector3" where
  "getPosition m =
     Vector3 (elemAt (elements m) (0 + 3 * 4)) (elemAt (elements m) (1 + 3 * 4))
       (elemAt (elements m) (2 + 3 * 4))"

text \<open>\<^verbatim>\<open>getPosition(fwd[name])\<close>: \<^verbatim>\<open>m.elements\<close> raises when the name is not in the map.\<close>

definition positionOf :: "LinkTransformations \<Rightarrow> string \<Rightarrow> error + Vector3" where
  "positionOf fwd nm =
     (case map_of fwd nm of None \<Rightarrow> Inl TypeError | Some m \<Rightarrow> Inr (getPosition m))"

section \<open>Chains\<close>

text \<open>
  \<^verbatim>\<open>getChain\<close> follows \<^verbatim>\<open>parent\<close> references. Inside the store a parent's address is
  below its child's (the store is in traversal order). The root's own parent lies outside
  the store: \<open>outer\<close> lists the names of the root's ancestors in the host's scene graph,
  nearest first, and is empty when the root has no parent.
\<close>

fun climbOuter :: "string \<Rightarrow> string list \<Rightarrow> string list \<Rightarrow> string list" where
  "climbOuter rootName [] chain = chain"
| "climbOuter rootName (nm # outer) chain =
     (if nm \<noteq> rootName then
        climbOuter rootName outer
          (if startsWith ''RJoint_'' nm then chain @ [nm] else chain)
      else chain)"

function climb :: "scene \<Rightarrow> string \<Rightarrow> string list \<Rightarrow> nat \<Rightarrow> string list \<Rightarrow> string list" where
  "climb sc rootName outer current chain =
     (if name (sc ! current) \<noteq> rootName then
        (let chain' = (if startsWith ''RJoint_'' (name (sc ! current))
                       then chain @ [name (sc ! current)] else chain)
         in case parent (sc ! current) of
              None \<Rightarrow> climbOuter rootName outer chain'
            | Some p \<Rightarrow> if p < current then climb sc rootName outer p chain' else chain')
      else chain)"
  by pat_completeness auto
termination
  by (relation "measure (\<lambda>(sc, rootName, outer, current, chain). current)") auto

definition getChain :: "Kinematics \<Rightarrow> string list \<Rightarrow> scene \<Rightarrow> string \<Rightarrow> string list" where
  "getChain K outer sc endEffector =
     rev (case map_of (mapK K) endEffector of
            None \<Rightarrow> [endEffector]
          | Some c \<Rightarrow>
              (case parent (sc ! c) of
                 None \<Rightarrow> climbOuter (name (sc ! rootK K)) outer [endEffector]
               | Some p \<Rightarrow>
                   if p < c then climb sc (name (sc ! rootK K)) outer p [endEffector]
                   else [endEffector]))"

section \<open>Inverse kinematics\<close>

type_synonym ikState = "jsnum list \<times> LinkTransformations \<times> Vector3"

text \<open>The body of \<^verbatim>\<open>for (const dof of dofs)\<close> (source lines 191 to 238).\<close>

definition ccdStep ::
  "three \<Rightarrow> Kinematics \<Rightarrow> string \<Rightarrow> Vector3 \<Rightarrow> Matrix4 \<Rightarrow> jsnum \<Rightarrow> string \<Rightarrow> string
     \<Rightarrow> ikState \<Rightarrow> scene \<Rightarrow> (error + ikState) \<times> scene" where
  "ccdStep L K joint target A alpha jointName dof st sc =
     (case st of (vec, fwd, dErr) \<Rightarrow>
      (case map_of (qConfigIndex K)
              (if includesStr ''_XYZ_'' jointName then jointName @ ''/'' @ dof else jointName) of
         None \<Rightarrow> (Inr st, sc)
       | Some i \<Rightarrow>
          (case map_of fwd jointName of
             None \<Rightarrow> (Inl TypeError, sc)
           | Some matrix \<Rightarrow>
              (case positionOf fwd joint of
                 Inl e \<Rightarrow> (Inl e, sc)
               | Inr p_end \<Rightarrow>
                  (case ccdAngle L dof matrix p_end target of
                     None \<Rightarrow> (Inr st, sc)
                   | Some theta \<Rightarrow>
                      (let vec' = store vec i (jsadd (elemAt vec i) (jsmul alpha theta)) in
                       case vectorToConfig K vec' of
                         Inl e \<Rightarrow> (Inl e, sc)
                       | Inr q' \<Rightarrow>
                          (case forwardKinematics L K q' A sc of
                             (Inl e, sc') \<Rightarrow> (Inl e, sc')
                           | (Inr fwd', sc') \<Rightarrow>
                              (case positionOf fwd' joint of
                                 Inl e \<Rightarrow> (Inl e, sc')
                               | Inr p_end' \<Rightarrow>
                                  (Inr (vec', fwd', subVectors L target p_end'), sc')))))))))"

fun dofLoop ::
  "three \<Rightarrow> Kinematics \<Rightarrow> string \<Rightarrow> Vector3 \<Rightarrow> Matrix4 \<Rightarrow> jsnum \<Rightarrow> string \<Rightarrow> string list
     \<Rightarrow> ikState \<Rightarrow> scene \<Rightarrow> (error + ikState) \<times> scene" where
  "dofLoop L K joint target A alpha jointName [] st sc = (Inr st, sc)"
| "dofLoop L K joint target A alpha jointName (dof # dofs) st sc =
     (case ccdStep L K joint target A alpha jointName dof st sc of
        (Inl e, sc') \<Rightarrow> (Inl e, sc')
      | (Inr st', sc') \<Rightarrow> dofLoop L K joint target A alpha jointName dofs st' sc')"

text \<open>\<^verbatim>\<open>for (let j = chain.length - 1; j >= 0; j--)\<close>, over the chain read from its end.\<close>

fun sweep ::
  "three \<Rightarrow> Kinematics \<Rightarrow> string \<Rightarrow> Vector3 \<Rightarrow> Matrix4 \<Rightarrow> jsnum \<Rightarrow> string list
     \<Rightarrow> ikState \<Rightarrow> scene \<Rightarrow> (error + ikState) \<times> scene" where
  "sweep L K joint target A alpha [] st sc = (Inr st, sc)"
| "sweep L K joint target A alpha (jointName # jointNames) st sc =
     (case dofLoop L K joint target A alpha jointName
             (if includesStr ''_XYZ_'' jointName then [''x'', ''y'', ''z''] else [''z'']) st sc of
        (Inl e, sc') \<Rightarrow> (Inl e, sc')
      | (Inr st', sc') \<Rightarrow> sweep L K joint target A alpha jointNames st' sc')"

text \<open>
  The \<^verbatim>\<open>while\<close> loop (source lines 185 to 242). \<^verbatim>\<open>count\<close> and \<^verbatim>\<open>maxIterations\<close> are
  JavaScript numbers: the comparison \<^verbatim>\<open>count < maxIterations\<close> is \<open>jslt\<close>, and
  \<^verbatim>\<open>count++\<close> is \<open>increment\<close>. Nothing bounds the number of iterations but the test
  itself, so the loop is a partial function: the value \<open>None\<close> is a call that never
  returns. \<^verbatim>\<open>alpha\<close>, \<^verbatim>\<open>limit\<close> and \<^verbatim>\<open>maxIterations\<close> are the values of the parameters
  after their defaults have been applied.
\<close>

partial_function (option) ikWhile ::
  "three \<Rightarrow> Kinematics \<Rightarrow> string \<Rightarrow> Vector3 \<Rightarrow> Matrix4 \<Rightarrow> jsnum \<Rightarrow> jsnum \<Rightarrow> jsnum
     \<Rightarrow> string list \<Rightarrow> nat \<Rightarrow> ikState \<Rightarrow> scene \<Rightarrow> ((error + nat \<times> ikState) \<times> scene) option" where
  "ikWhile L K joint target A alpha limit maxIterations chain count st sc =
     (if jsgt (lengthSq L (snd (snd st))) limit \<and> jslt (Fin (real count)) maxIterations then
        (case sweep L K joint target A alpha (rev chain) st sc of
           (Inl e, sc') \<Rightarrow> Some (Inl e, sc')
         | (Inr st', sc') \<Rightarrow>
             ikWhile L K joint target A alpha limit maxIterations chain (increment count) st' sc')
      else Some (Inr (count, st), sc))"

declare ikWhile.simps [code]

definition inverseKinematics ::
  "three \<Rightarrow> Kinematics \<Rightarrow> string list \<Rightarrow> JointAngles \<Rightarrow> string \<Rightarrow> Vector3 \<Rightarrow> Matrix4
     \<Rightarrow> jsnum \<Rightarrow> jsnum \<Rightarrow> jsnum \<Rightarrow> scene
     \<Rightarrow> ((error + JointAngles \<times> Vector3 \<times> nat \<times> LinkTransformations) \<times> scene) option" where
  "inverseKinematics L K outer q joint target A alpha limit maxIterations sc =
     (let vec = configToVector K q in
      case vectorToConfig K vec of
        Inl e \<Rightarrow> Some (Inl e, sc)
      | Inr q1 \<Rightarrow>
         (case forwardKinematics L K q1 A sc of
            (Inl e, sc1) \<Rightarrow> Some (Inl e, sc1)
          | (Inr fwd, sc1) \<Rightarrow>
             (case positionOf fwd joint of
                Inl e \<Rightarrow> Some (Inl e, sc1)
              | Inr p_end \<Rightarrow>
                 (case ikWhile L K joint target A alpha limit maxIterations
                         (getChain K outer sc1 joint) 0
                         (vec, fwd, subVectors L target p_end) sc1 of
                    None \<Rightarrow> None
                  | Some (Inl e, sc2) \<Rightarrow> Some (Inl e, sc2)
                  | Some (Inr (count, vec', fwd', dErr), sc2) \<Rightarrow>
                     (case vectorToConfig K vec' of
                        Inl e \<Rightarrow> Some (Inl e, sc2)
                      | Inr finalQ \<Rightarrow> Some (Inr (finalQ, dErr, count, fwd'), sc2))))))"

section \<open>The Jacobian\<close>

fun calcJacobianLoop ::
  "three \<Rightarrow> Kinematics \<Rightarrow> jsnum list \<Rightarrow> string \<Rightarrow> Vector3 \<Rightarrow> jsnum \<Rightarrow> Matrix4 \<Rightarrow> nat list
     \<Rightarrow> Vector3 list \<Rightarrow> scene \<Rightarrow> (error + Vector3 list) \<times> scene" where
  "calcJacobianLoop L K cVec joint pos dq A [] jac sc = (Inr jac, sc)"
| "calcJacobianLoop L K cVec joint pos dq A (i # is) jac sc =
     (case vectorToConfig K (store cVec i (jsadd (elemAt cVec i) dq)) of
        Inl e \<Rightarrow> (Inl e, sc)
      | Inr q2 \<Rightarrow>
         (case forwardKinematics L K q2 A sc of
            (Inl e, sc') \<Rightarrow> (Inl e, sc')
          | (Inr fwd2, sc') \<Rightarrow>
             (case positionOf fwd2 joint of
                Inl e \<Rightarrow> (Inl e, sc')
              | Inr pos2 \<Rightarrow>
                 calcJacobianLoop L K cVec joint pos dq A is
                   (jac @ [finiteDifference L pos2 pos dq]) sc')))"

definition calcJacobian ::
  "three \<Rightarrow> Kinematics \<Rightarrow> JointAngles \<Rightarrow> string \<Rightarrow> Vector3 \<Rightarrow> jsnum \<Rightarrow> Matrix4 \<Rightarrow> scene
     \<Rightarrow> (error + Vector3 list) \<times> scene" where
  "calcJacobian L K q joint pos dq A sc =
     calcJacobianLoop L K (configToVector K q) joint pos dq A [0 ..< qConfigLength K] [] sc"

section \<open>The constructor\<close>

text \<open>\<^verbatim>\<open>q.K = (q.K as number) + c\<close>: a missing key reads as undefined, and the sum is NaN.
  (A triple is stored only under a name with \<^verbatim>\<open>_XYZ_\<close>, which none of the four names
  below has; the sum is written as NaN there.)\<close>

definition numberAt :: "JointAngles \<Rightarrow> string \<Rightarrow> jsnum" where
  "numberAt q k =
     (case map_of q k of Some (Number v) \<Rightarrow> v | Some _ \<Rightarrow> NaN | None \<Rightarrow> Undefined)"

definition addToEntry :: "string \<Rightarrow> real \<Rightarrow> JointAngles \<Rightarrow> JointAngles" where
  "addToEntry k c q = AList.update k (Number (jsadd (numberAt q k) (Fin c))) q"

definition identity4 :: Matrix4 where
  "identity4 = Matrix4 (map Fin [1, 0, 0, 0, 0, 1, 0, 0, 0, 0, 1, 0, 0, 0, 0, 1])"

definition homeConfig :: "Kinematics \<Rightarrow> scene \<Rightarrow> JointAngles" where
  "homeConfig K sc =
     addToEntry ''RJoint_Front_Lower_Z_R'' (pi / 8)
       (addToEntry ''RJoint_Front_Lower_Z_L'' (- (pi / 8))
         (addToEntry ''RJoint_Back_Lower_Z_R'' (- (pi / 4))
           (addToEntry ''RJoint_Back_Lower_Z_L'' (pi / 4)
             (getCurrentStateConfig K sc))))"

definition Kinematics_new :: "three \<Rightarrow> scene \<Rightarrow> bool \<Rightarrow> (error + Kinematics) \<times> scene" where
  "Kinematics_new L sc yp =
     (let K = (Kinematics_init sc yp)\<lparr> homePositionConfig :=
                 homeConfig (Kinematics_init sc yp) sc \<rparr>
      in case forwardKinematics L K (homePositionConfig K) identity4 sc of
           (Inl e, sc') \<Rightarrow> (Inl e, sc')
         | (Inr fwd, sc') \<Rightarrow> (Inr (K\<lparr> homePositionFwd := fwd \<rparr>), sc'))"

section \<open>Notions used in the statements\<close>

definition threeDof :: "string \<Rightarrow> bool" where
  "threeDof nm = includesStr ''_XYZ_'' nm"

definition oneDof :: "string \<Rightarrow> bool" where
  "oneDof nm = (\<not> includesStr ''_XYZ_'' nm \<and> includesStr ''_Z_'' nm)"

text \<open>The labels one key of the name map contributes to the index, in slot order.\<close>

definition dofLabels :: "string \<Rightarrow> string list" where
  "dofLabels nm =
     (if threeDof nm then [nm @ ''/x'', nm @ ''/y'', nm @ ''/z'']
      else if oneDof nm then [nm] else [])"

text \<open>An engine whose name map and index are the ones the constructor computes over the
  names of the tree \<open>sc\<close> (rotations and world matrices play no part in them).\<close>

definition engineOn :: "Kinematics \<Rightarrow> scene \<Rightarrow> bool" where
  "engineOn K sc =
     (rootK K = 0 \<and> mapK K = sortObjectKeys (getNameChildMap sc) \<and>
      (qConfigIndex K, qConfigIndexReversed K) = confIndex (mapK K) \<and>
      qConfigLength K = length (qConfigIndexReversed K))"

text \<open>The label-to-slot map and the slot-to-label array are inverse to each other.\<close>

definition okIndex :: "(string \<times> nat) list \<Rightarrow> string list \<Rightarrow> bool" where
  "okIndex ind rv = (\<forall>l i. map_of ind l = Some i \<longleftrightarrow> i < length rv \<and> rv ! i = l)"

text \<open>No single-axis joint is named like a component label of \<^verbatim>\<open>vectorToConfig\<close>.\<close>

definition plainName :: "string \<Rightarrow> bool" where
  "plainName nm =
     (oneDof nm \<longrightarrow>
        \<not> endsWith ''/x'' nm \<and> \<not> endsWith ''/y'' nm \<and> \<not> endsWith ''/z'' nm)"

definition plainNames :: "scene \<Rightarrow> bool" where
  "plainNames sc = list_all plainName (map name sc)"

text \<open>The names \<^verbatim>\<open>getCurrentStateConfig\<close> keeps, and what it reads for one of them.\<close>

definition captured :: "string \<Rightarrow> bool" where
  "captured nm = (startsWith ''RJoint_'' nm \<and> (threeDof nm \<or> oneDof nm))"

definition reading :: "string \<Rightarrow> Euler \<Rightarrow> JointAngle" where
  "reading nm r = (if threeDof nm then Rot3Angles (ex r) (ey r) (ez r) else Number (ez r))"

text \<open>The assignments \<^verbatim>\<open>vec[this.qConfigIndex[label]] = value\<close> that \<^verbatim>\<open>configToVector\<close>
  performs for a configuration, in order, and the value a label's slot ends with.\<close>

definition writes :: "JointAngles \<Rightarrow> (string \<times> jsnum) list" where
  "writes q =
     concat (map (\<lambda>(joint, qv). case qv of
                    Rot3Angles qx qy qz \<Rightarrow>
                      [(joint @ ''/x'', qx), (joint @ ''/y'', qy), (joint @ ''/z'', qz)]
                  | Number v \<Rightarrow> [(joint, v)]) q)"

definition slotValue :: "JointAngles \<Rightarrow> string \<Rightarrow> jsnum" where
  "slotValue q l = (case map_of (rev (writes q)) l of Some v \<Rightarrow> v | None \<Rightarrow> SENTINEL)"

text \<open>The entry of one key of the name map in the configuration read back from a vector
  whose slot for label \<open>l\<close> holds \<open>val l\<close>.\<close>

definition entryOf :: "(string \<Rightarrow> jsnum) \<Rightarrow> string \<Rightarrow> JointAngles" where
  "entryOf val nm =
     (if threeDof nm then
        [(nm, Rot3Angles (val (nm @ ''/x'')) (val (nm @ ''/y'')) (val (nm @ ''/z'')))]
      else if oneDof nm then [(nm, Number (val nm))] else [])"

text \<open>A configuration over a subset of the tree's joints: a scalar under a single-axis
  name, a triple under a three-axis name, no key twice.\<close>

definition wellShaped :: "scene \<Rightarrow> JointAngles \<Rightarrow> bool" where
  "wellShaped sc q =
     (distinct (map fst q) \<and>
      list_all (\<lambda>(nm, qv). nm \<in> set (map name sc) \<and>
                  (case qv of Number v \<Rightarrow> oneDof nm | Rot3Angles a b c \<Rightarrow> threeDof nm)) q)"

definition sentinelEntry :: "string \<Rightarrow> JointAngle option" where
  "sentinelEntry nm =
     (if threeDof nm then Some (Rot3Angles SENTINEL SENTINEL SENTINEL)
      else if oneDof nm then Some (Number SENTINEL) else None)"

text \<open>A configuration completed with the sentinel: one entry for every joint of the
  index, in index order; the entry \<open>q\<close> has for the joint where it has one, and
  \<open>-1000\<close> on every axis of the joint where it has none.\<close>

definition completed :: "Kinematics \<Rightarrow> JointAngles \<Rightarrow> JointAngles" where
  "completed K q =
     map (\<lambda>nm. (nm, case map_of q nm of
                      Some qv \<Rightarrow> qv
                    | None \<Rightarrow> if threeDof nm then Rot3Angles SENTINEL SENTINEL SENTINEL
                              else Number SENTINEL))
       (filter (\<lambda>nm. threeDof nm \<or> oneDof nm) (map fst (mapK K)))"

text \<open>The effect of one entry of a configuration in \<^verbatim>\<open>setConfiguration\<close>, on the rotations
  of the store alone.\<close>

definition rotate :: "bool \<Rightarrow> NameChildMap \<Rightarrow> string \<times> JointAngle \<Rightarrow> Euler list \<Rightarrow> Euler list" where
  "rotate yp m e rs =
     (case map_of m (fst e) of
        None \<Rightarrow> rs
      | Some c \<Rightarrow> rs[c := newRotation yp (snd e) (rs ! c)])"

text \<open>The four joints whose home angle the constructor shifts.\<close>

definition biasedJoints :: "string list" where
  "biasedJoints =
     [''RJoint_Back_Lower_Z_L'', ''RJoint_Back_Lower_Z_R'',
      ''RJoint_Front_Lower_Z_L'', ''RJoint_Front_Lower_Z_R'']"

text \<open>A well-formed store: the root, at address 0, is the only node without a parent in
  the store, and every other node comes after its parent.\<close>

definition wfTree :: "scene \<Rightarrow> bool" where
  "wfTree sc =
     (sc \<noteq> [] \<and> parent (sc ! 0) = None \<and>
      list_all (\<lambda>j. case parent (sc ! j) of Some p \<Rightarrow> p < j | None \<Rightarrow> False)
        [1 ..< length sc])"

text \<open>The chain as the specification words it: the strict ancestors of a node, nearest
  first; of these, the ones below the root whose name is a joint name, base first,
  followed by the node's own name.\<close>

function ancestorsOf :: "scene \<Rightarrow> nat \<Rightarrow> nat list" where
  "ancestorsOf sc i =
     (case parent (sc ! i) of
        None \<Rightarrow> []
      | Some p \<Rightarrow> if p < i then p # ancestorsOf sc p else [])"
  by pat_completeness auto
termination
  by (relation "measure snd") auto

definition chainSpec :: "scene \<Rightarrow> nat \<Rightarrow> string list" where
  "chainSpec sc i =
     rev (filter (startsWith ''RJoint_'')
            (map (\<lambda>j. name (sc ! j)) (filter (\<lambda>j. 0 < j) (ancestorsOf sc i))))
     @ [name (sc ! i)]"

text \<open>What holds of the working state of \<^verbatim>\<open>inverseKinematics\<close> on a tree with the names
  of \<open>sc0\<close>: the vector has one slot per label, the transform map has an entry for
  exactly the names of the tree, and the tree still has those names.\<close>

definition ikInv :: "Kinematics \<Rightarrow> scene \<Rightarrow> ikState \<Rightarrow> scene \<Rightarrow> bool" where
  "ikInv K sc0 st sc =
     (length (fst st) = qConfigLength K \<and>
      fst ` set (fst (snd st)) = set (map name sc0) \<and>
      map name sc = map name sc0)"

text \<open>The residual \<^verbatim>\<open>inverseKinematics\<close> computes before its loop (source lines 178 to 181).\<close>

definition initialResidual ::
  "three \<Rightarrow> Kinematics \<Rightarrow> JointAngles \<Rightarrow> string \<Rightarrow> Vector3 \<Rightarrow> Matrix4 \<Rightarrow> scene
     \<Rightarrow> error + Vector3" where
  "initialResidual L K q joint target A sc =
     (case vectorToConfig K (configToVector K q) of
        Inl e \<Rightarrow> Inl e
      | Inr q1 \<Rightarrow>
         (case forwardKinematics L K q1 A sc of
            (Inl e, sc1) \<Rightarrow> Inl e
          | (Inr fwd, sc1) \<Rightarrow>
             (case positionOf fwd joint of
                Inl e \<Rightarrow> Inl e
              | Inr p_end \<Rightarrow> Inr (subVectors L target p_end))))"

section \<open>Example trees\<close>

text \<open>
  An instance of the library operations for trees all of whose nodes sit at the origin:
  every world matrix has zero translation whatever the rotations are (its rotation block
  is written as the identity), and vector arithmetic is exact.
\<close>

fun exactSub :: "Vector3 \<Rightarrow> Vector3 \<Rightarrow> Vector3" where
  "exactSub (Vector3 a b c) (Vector3 d e f) =
     Vector3 (jsadd a (jsmul (Fin (- 1)) d)) (jsadd b (jsmul (Fin (- 1)) e))
       (jsadd c (jsmul (Fin (- 1)) f))"

fun exactLengthSq :: "Vector3 \<Rightarrow> jsnum" where
  "exactLengthSq (Vector3 a b c) = jsadd (jsadd (jsmul a a) (jsmul b b)) (jsmul c c)"

definition originLib :: three where
  "originLib =
     \<lparr> worldMatrix = (\<lambda>parentWorld j r. identity4),
       subVectors = exactSub,
       lengthSq = exactLengthSq,
       ccdAngle = (\<lambda>dof matrix p_end target. None),
       finiteDifference = (\<lambda>pos2 pos dq. exactSub pos2 pos) \<rparr>"

text \<open>The same instance with every coordinate-descent step turning by one radian, so
  that the update path of the solver runs.\<close>

definition turningLib :: three where
  "turningLib = originLib\<lparr> ccdAngle := (\<lambda>dof matrix p_end target. Some (Fin 1)) \<rparr>"

definition node :: "string \<Rightarrow> nat option \<Rightarrow> Object3D" where
  "node nm p =
     \<lparr> name = nm, rotation = Euler (Fin 0) (Fin 0) (Fin 0), parent = p,
       matrixWorld = identity4 \<rparr>"

definition legTree :: scene where
  "legTree =
     [node ''Body'' None,
      node ''RJoint_Hip_XYZ_L'' (Some 0),
      node ''RJoint_Knee_Z_L'' (Some 1),
      node ''Effector_Back_L'' (Some 2)]"

definition tailTree :: scene where
  "tailTree = [node ''Body'' None, node ''Tail_Z_1'' (Some 0)]"

definition tailEngine :: Kinematics where
  "tailEngine = Kinematics_init tailTree False"

definition bearTree :: scene where
  "bearTree =
     [node ''Bear'' None,
      node ''RJoint_Back_Upper_XYZ_L'' (Some 0),
      node ''RJoint_Back_Lower_Z_L'' (Some 1),
      node ''Effector_Back_L'' (Some 2),
      node ''RJoint_Back_Lower_Z_R'' (Some 0),
      node ''RJoint_Front_Lower_Z_L'' (Some 0),
      node ''RJoint_Front_Lower_Z_R'' (Some 0)]"

definition slashTree :: scene where
  "slashTree = [node ''Body'' None, node ''RJoint_A_Z_/x'' (Some 0)]"

definition legEngine :: Kinematics where
  "legEngine = Kinematics_init legTree False"

text \<open>The engine the constructor returns over \<open>bearTree\<close>, which has the four joints
  the constructor shifts (lemma \<open>bearEngine_constructed\<close> below).\<close>

definition bearEngine :: Kinematics where
  "bearEngine =
     (Kinematics_init bearTree False)
       \<lparr> homePositionConfig := homeConfig (Kinematics_init bearTree False) bearTree,
         homePositionFwd := forwardKinematicsRec bearTree [] \<rparr>"

lemmas example_defs =
  legEngine_def tailEngine_def tailTree_def bearTree_def slashTree_def Kinematics_init_def legTree_def node_def getNameChildMap_def
  sortObjectKeys_def confIndex_def startsWith_def endsWith_def originLib_def identity4_def

section \<open>Strings and labels\<close>

lemma includesStr_Nil [simp]: "includesStr [] s"
  by (cases s) (simp_all add: startsWith_def)

lemma startsWith_append: "startsWith p s \<Longrightarrow> startsWith p (s @ t)"
proof -
  assume a: "startsWith p s"
  then have "length (take (length p) s) = length p"
    unfolding startsWith_def by simp
  then have "length p \<le> length s" by simp
  with a show ?thesis unfolding startsWith_def by simp
qed

lemma includesStr_append: "includesStr p s \<Longrightarrow> includesStr p (s @ t)"
proof (induction s)
  case Nil then show ?case by simp
next
  case (Cons a s)
  then show ?case using startsWith_append[of p "a # s" t] by auto
qed

lemma threeDof_append: "threeDof nm \<Longrightarrow> threeDof (nm @ t)"
  by (simp add: threeDof_def includesStr_append)

lemma dofLabels_joint:
  assumes "l \<in> set (dofLabels k)" and "l \<in> set (dofLabels k')"
  shows "k = k'"
  using assms threeDof_append[of k] threeDof_append[of k']
  by (auto simp: dofLabels_def oneDof_def threeDof_def split: if_splits)

lemma distinct_dofLabels: "distinct (dofLabels k)"
  by (simp add: dofLabels_def)

lemma distinct_labels: "distinct ks \<Longrightarrow> distinct (concat (map dofLabels ks))"
proof (induction ks)
  case Nil then show ?case by simp
next
  case (Cons k ks)
  have "set (dofLabels k) \<inter> set (concat (map dofLabels ks)) = {}"
  proof (rule ccontr)
    assume "set (dofLabels k) \<inter> set (concat (map dofLabels ks)) \<noteq> {}"
    then obtain l k' where "l \<in> set (dofLabels k)" "k' \<in> set ks" "l \<in> set (dofLabels k')"
      by auto
    with dofLabels_joint have "k = k'" by blast
    with \<open>k' \<in> set ks\<close> Cons.prems show False by simp
  qed
  with Cons show ?case by (simp add: distinct_dofLabels)
qed

lemma dofLabels_three: "threeDof j \<Longrightarrow> dofLabels j = [j @ ''/x'', j @ ''/y'', j @ ''/z'']"
  by (simp add: dofLabels_def)

lemma dofLabels_one: "oneDof j \<Longrightarrow> dofLabels j = [j]"
  by (simp add: dofLabels_def oneDof_def threeDof_def)

lemma dofLabels_none: "\<not> threeDof j \<Longrightarrow> \<not> oneDof j \<Longrightarrow> dofLabels j = []"
  by (simp add: dofLabels_def)

lemma okIndex_snoc:
  assumes "okIndex ind rv" "l \<notin> set rv"
  shows "okIndex (AList.update l (length rv) ind) (rv @ [l])"
  using assms unfolding okIndex_def
  by (auto simp: update_conv' nth_append less_Suc_eq)

lemma confIndexLoop_snd:
  "snd (confIndexLoop js ind rv c) = rv @ concat (map dofLabels js)"
proof (induction js arbitrary: ind rv c)
  case Nil then show ?case by simp
next
  case (Cons j js)
  consider "threeDof j" | "oneDof j" | "\<not> threeDof j" "\<not> oneDof j" by blast
  then show ?case
  proof cases
    case 1 then show ?thesis using Cons.IH by (simp add: dofLabels_three) (simp add: threeDof_def)
  next
    case 2 then show ?thesis using Cons.IH by (simp add: dofLabels_one) (simp add: oneDof_def)
  next
    case 3 then show ?thesis using Cons.IH by (simp add: dofLabels_none) (simp add: oneDof_def threeDof_def)
  qed
qed

lemma confIndexLoop_ok:
  assumes "okIndex ind rv" "c = length rv" "distinct (rv @ concat (map dofLabels js))"
  shows "okIndex (fst (confIndexLoop js ind rv c)) (rv @ concat (map dofLabels js))"
  using assms
proof (induction js arbitrary: ind rv c)
  case Nil then show ?case by simp
next
  case (Cons j js)
  show ?case
  proof (cases "threeDof j")
    case True
    let ?rv1 = "rv @ [j @ ''/x'']" let ?rv2 = "?rv1 @ [j @ ''/y'']" let ?rv3 = "?rv2 @ [j @ ''/z'']"
    from True Cons.prems(3) have d: "j @ ''/x'' \<notin> set rv" "j @ ''/y'' \<notin> set ?rv1" "j @ ''/z'' \<notin> set ?rv2"
      by (auto simp: dofLabels_three)
    have 1: "okIndex (AList.update (j @ ''/x'') c ind) ?rv1"
      using okIndex_snoc[OF Cons.prems(1) d(1)] Cons.prems(2) by simp
    have 2: "okIndex (AList.update (j @ ''/y'') (c + 1) (AList.update (j @ ''/x'') c ind)) ?rv2"
      using okIndex_snoc[OF 1 d(2)] Cons.prems(2) by simp
    have 3: "okIndex (AList.update (j @ ''/z'') (c + 2) (AList.update (j @ ''/y'') (c + 1) (AList.update (j @ ''/x'') c ind))) ?rv3"
      using okIndex_snoc[OF 2 d(3)] Cons.prems(2) by simp
    have "okIndex (fst (confIndexLoop js (AList.update (j @ ''/z'') (c + 2) (AList.update (j @ ''/y'') (c + 1) (AList.update (j @ ''/x'') c ind))) ?rv3 (c + 3)))
            (?rv3 @ concat (map dofLabels js))"
      by (rule Cons.IH[OF 3]) (use True Cons.prems in \<open>simp_all add: dofLabels_three\<close>)
    with True show ?thesis by (simp add: dofLabels_three) (simp add: threeDof_def)
  next
    case False
    show ?thesis
    proof (cases "oneDof j")
      case True
      from True False Cons.prems(3) have d: "j \<notin> set rv" by (auto simp: dofLabels_one)
      have 1: "okIndex (AList.update j c ind) (rv @ [j])"
        using okIndex_snoc[OF Cons.prems(1) d] Cons.prems(2) by simp
      have "okIndex (fst (confIndexLoop js (AList.update j c ind) (rv @ [j]) (c + 1))) ((rv @ [j]) @ concat (map dofLabels js))"
        by (rule Cons.IH[OF 1]) (use True False Cons.prems in \<open>simp_all add: dofLabels_one\<close>)
      with True False show ?thesis by (simp add: dofLabels_one) (simp add: threeDof_def oneDof_def)
    next
      case F2: False
      have "okIndex (fst (confIndexLoop js ind rv c)) (rv @ concat (map dofLabels js))"
        by (rule Cons.IH[OF Cons.prems(1,2)]) (use F2 False Cons.prems in \<open>simp_all add: dofLabels_none\<close>)
      with F2 False show ?thesis by (simp add: dofLabels_none) (simp add: threeDof_def oneDof_def)
    qed
  qed
qed

lemma update_fresh: "k \<notin> fst ` set al \<Longrightarrow> AList.update k v al = al @ [(k, v)]"
  by (induction al) auto

lemma fold_update_fresh:
  "distinct ks \<Longrightarrow> set ks \<inter> fst ` set acc = {} \<Longrightarrow>
   fold (\<lambda>k a. AList.update k (f k) a) ks acc = acc @ map (\<lambda>k. (k, f k)) ks"
proof (induction ks arbitrary: acc)
  case Nil then show ?case by simp
next
  case (Cons k ks)
  then have "AList.update k (f k) acc = acc @ [(k, f k)]" by (intro update_fresh) auto
  moreover have "fold (\<lambda>k a. AList.update k (f k) a) ks (acc @ [(k, f k)]) = (acc @ [(k, f k)]) @ map (\<lambda>k. (k, f k)) ks"
    using Cons.prems by (intro Cons.IH) auto
  ultimately show ?case by simp
qed

lemma sortObjectKeys_eq:
  "distinct (map fst obj) \<Longrightarrow>
   sortObjectKeys obj = map (\<lambda>k. (k, the (map_of obj k))) (sort (map fst obj))"
  unfolding sortObjectKeys_def by (subst fold_update_fresh) simp_all

lemma getNameChildMapFrom_keys:
  "distinct (map fst m) \<Longrightarrow>
   distinct (map fst (getNameChildMapFrom i sc m)) \<and>
   fst ` set (getNameChildMapFrom i sc m) = fst ` set m \<union> set (map name sc)"
  by (induction sc arbitrary: i m) (auto simp: distinct_update dom_update image_iff)

lemma getNameChildMapFrom_val:
  "map_of (getNameChildMapFrom i sc m) n = Some c \<Longrightarrow>
   (map_of m n = Some c \<and> n \<notin> set (map name sc)) \<or>
   (i \<le> c \<and> c < i + length sc \<and> name (sc ! (c - i)) = n)"
proof (induction sc arbitrary: i m)
  case Nil then show ?case by simp
next
  case (Cons a sc)
  from Cons.IH[of "Suc i" "AList.update (name a) i m"] Cons.prems
  show ?case
    by (auto simp: update_conv' nth_Cons' Suc_diff_le split: if_splits)
qed

section \<open>Unknown joints in \<^verbatim>\<open>setConfiguration\<close>\<close>

text \<open>
  Claim C1. The specification says that \<^verbatim>\<open>setConfiguration\<close> ignores an entry whose joint
  is not in the tree. The source dereferences \<^verbatim>\<open>this.map[joint]\<close> without a test: on the
  tree \<open>legTree\<close>, a configuration that names the absent joint \<^verbatim>\<open>RJoint_Ghost_Z_L\<close>
  raises a \<^verbatim>\<open>TypeError\<close>.
\<close>

theorem setConfiguration_unknown_joint_raises:
  "fst (setConfiguration originLib legEngine
          [(''RJoint_Ghost_Z_L'', Number (Fin 1))] legTree) = Inl TypeError"
  by (simp add: example_defs)

section \<open>The name map and the index of an engine\<close>

lemma getNameChildMap_keys:
  "distinct (map fst (getNameChildMap sc))"
  "fst ` set (getNameChildMap sc) = set (map name sc)"
  using getNameChildMapFrom_keys[of "[]" 0 sc] by (simp_all add: getNameChildMap_def)

lemma getNameChildMap_val:
  "map_of (getNameChildMap sc) n = Some c \<Longrightarrow> c < length sc \<and> name (sc ! c) = n"
  using getNameChildMapFrom_val[of 0 sc "[]" n c] by (simp add: getNameChildMap_def)

lemma map_of_sortObjectKeys:
  assumes "distinct (map fst obj)"
  shows "map_of (sortObjectKeys obj) = map_of obj"
proof
  fix n
  show "map_of (sortObjectKeys obj) n = map_of obj n"
  proof (cases "n \<in> fst ` set obj")
    case True
    then obtain v where "map_of obj n = Some v" by (metis domD dom_map_of_conv_image_fst)
    with True show ?thesis
      by (simp add: sortObjectKeys_eq[OF assms] map_of_map_restrict restrict_map_def)
  next
    case False
    then have "map_of obj n = None" by (simp add: map_of_eq_None_iff)
    with False show ?thesis
      by (simp add: sortObjectKeys_eq[OF assms] map_of_map_restrict restrict_map_def)
  qed
qed

lemma engine_keys:
  assumes "engineOn K sc"
  shows "sorted (map fst (mapK K))" and "distinct (map fst (mapK K))"
    and "set (map fst (mapK K)) = set (map name sc)"
proof -
  have eq: "map fst (mapK K) = sort (map fst (getNameChildMap sc))"
    using assms by (simp add: engineOn_def sortObjectKeys_eq[OF getNameChildMap_keys(1)] comp_def)
  show "sorted (map fst (mapK K))" by (simp add: eq)
  show "distinct (map fst (mapK K))" by (simp add: eq getNameChildMap_keys(1))
  show "set (map fst (mapK K)) = set (map name sc)"
    using getNameChildMap_keys(2)[of sc] by (simp add: eq)
qed

lemma engine_map_val:
  assumes "engineOn K sc" "map_of (mapK K) n = Some c"
  shows "c < length sc \<and> name (sc ! c) = n"
  using assms getNameChildMap_val[of sc n c]
  by (simp add: engineOn_def map_of_sortObjectKeys[OF getNameChildMap_keys(1)])

lemma engine_map_dom:
  assumes "engineOn K sc"
  shows "(map_of (mapK K) n \<noteq> None) = (n \<in> set (map name sc))"
  using engine_keys(3)[OF assms] by (metis map_of_eq_None_iff set_map)

lemma okIndex_Nil: "okIndex [] []"
  by (simp add: okIndex_def)

lemma engine_index:
  assumes "engineOn K sc"
  shows "qConfigIndexReversed K = concat (map dofLabels (map fst (mapK K)))"
    and "distinct (qConfigIndexReversed K)"
    and "okIndex (qConfigIndex K) (qConfigIndexReversed K)"
    and "qConfigLength K = length (qConfigIndexReversed K)"
proof -
  let ?ks = "map fst (mapK K)"
  have c: "confIndexLoop ?ks [] [] 0 = (qConfigIndex K, qConfigIndexReversed K)"
    using assms by (simp add: engineOn_def confIndex_def)
  show r: "qConfigIndexReversed K = concat (map dofLabels ?ks)"
    using confIndexLoop_snd[of ?ks "[]" "[]" 0] by (simp add: c del: map_map)
  show d: "distinct (qConfigIndexReversed K)"
    unfolding r by (rule distinct_labels[OF engine_keys(2)[OF assms]])
  have "okIndex (fst (confIndexLoop ?ks [] [] 0)) ([] @ concat (map dofLabels ?ks))"
    by (rule confIndexLoop_ok) (use d r in \<open>simp_all add: okIndex_Nil del: map_map\<close>)
  then show "okIndex (qConfigIndex K) (qConfigIndexReversed K)"
    by (simp add: c r del: map_map)
  show "qConfigLength K = length (qConfigIndexReversed K)"
    using assms by (simp add: engineOn_def)
qed

lemma length_labels:
  "length (concat (map dofLabels ks)) = 3 * length (filter threeDof ks) + length (filter oneDof ks)"
  by (induction ks) (auto simp: dofLabels_def oneDof_def threeDof_def)

lemma engineOn_init: "engineOn (Kinematics_init sc yp) sc"
  by (simp add: engineOn_def Kinematics_init_def Let_def split: prod.splits)

lemma engineOn_new:
  "fst (Kinematics_new L sc yp) = Inr K \<Longrightarrow> engineOn K sc"
  using engineOn_init[of sc yp]
  by (auto simp: Kinematics_new_def Let_def engineOn_def split: prod.splits sum.splits)

section \<open>Reading the current configuration\<close>

lemma getCurrentStateConfigLoop_map_of:
  "distinct (map fst m) \<Longrightarrow>
   map_of (getCurrentStateConfigLoop sc m q) nm =
     (case map_of m nm of
        None \<Rightarrow> map_of q nm
      | Some child \<Rightarrow>
          if captured nm then Some (reading nm (rotation (sc ! child))) else map_of q nm)"
proof (induction m arbitrary: q)
  case Nil then show ?case by simp
next
  case (Cons a m)
  obtain k c where a: "a = (k, c)" by (cases a)
  from Cons.prems a have km: "map_of m k = None" by (simp add: map_of_eq_None_iff)
  from Cons.prems have d: "distinct (map fst m)" by simp
  show ?case
    using km by (auto simp: a Cons.IH[OF d] update_conv' captured_def reading_def threeDof_def
        oneDof_def split: option.splits)
qed

lemma getCurrentStateConfig_map_of:
  assumes "engineOn K sc"
  shows "map_of (getCurrentStateConfig K sc) nm =
     (case map_of (mapK K) nm of
        None \<Rightarrow> None
      | Some child \<Rightarrow> if captured nm then Some (reading nm (rotation (sc ! child))) else None)"
  using getCurrentStateConfigLoop_map_of[OF engine_keys(2)[OF assms], of sc "[]" nm]
  by (simp add: getCurrentStateConfig_def split: option.splits)

lemma engine_map_node:
  assumes "engineOn K sc" "distinct (map name sc)" "i < length sc"
  shows "map_of (mapK K) (name (sc ! i)) = Some i"
proof -
  from assms(3) have "name (sc ! i) \<in> set (map name sc)" by simp
  with engine_map_dom[OF assms(1)] obtain c where c: "map_of (mapK K) (name (sc ! i)) = Some c"
    by blast
  from engine_map_val[OF assms(1) c] have "c < length sc" "name (sc ! c) = name (sc ! i)" by simp_all
  with assms(2,3) have "c = i" using nth_eq_iff_index_eq[of "map name sc" c i] by simp
  with c show ?thesis by simp
qed




section \<open>Configuration vectors\<close>

lemma configToVectorLoop_writes:
  "configToVectorLoop ind q vec =
     fold (\<lambda>(l, v) vec. storeAt vec (map_of ind l) v) (writes q) vec"
proof (induction q arbitrary: vec)
  case Nil then show ?case by (simp add: writes_def)
next
  case (Cons a q)
  obtain j qv where a: "a = (j, qv)" by (cases a)
  show ?case using Cons.IH by (cases qv) (simp_all add: a writes_def)
qed

lemma storeAt_okIndex:
  assumes "okIndex ind rv" "length vec = length rv"
  shows "length (storeAt vec (map_of ind l) v) = length rv"
    and "i < length rv \<Longrightarrow>
         storeAt vec (map_of ind l) v ! i = (if l = rv ! i then v else vec ! i)"
proof -
  show "length (storeAt vec (map_of ind l) v) = length rv"
    using assms by (auto simp: storeAt_def store_def okIndex_def split: option.splits)
  assume i: "i < length rv"
  show "storeAt vec (map_of ind l) v ! i = (if l = rv ! i then v else vec ! i)"
  proof (cases "map_of ind l")
    case None
    with assms(1) i have "l \<noteq> rv ! i" unfolding okIndex_def by (metis option.distinct(1))
    with None show ?thesis by (simp add: storeAt_def)
  next
    case (Some j)
    with assms(1) have j: "j < length rv" "rv ! j = l" by (auto simp: okIndex_def)
    from assms(1) i have ii: "map_of ind (rv ! i) = Some i" by (simp add: okIndex_def)
    have st: "storeAt vec (map_of ind l) v = vec[j := v]"
      using Some j(1) assms(2) by (simp add: storeAt_def store_def)
    show ?thesis
    proof (cases "j = i")
      case True
      with j(2) i assms(2) show ?thesis by (simp add: st)
    next
      case False
      with ii Some have "l \<noteq> rv ! i" by auto
      with False show ?thesis by (simp add: st)
    qed
  qed
qed

lemma fold_storeAt:
  assumes "okIndex ind rv"
  shows "length vec = length rv \<Longrightarrow>
     length (fold (\<lambda>(l, v) vec. storeAt vec (map_of ind l) v) ws vec) = length rv \<and>
     (\<forall>i < length rv.
        fold (\<lambda>(l, v) vec. storeAt vec (map_of ind l) v) ws vec ! i =
          (case map_of (rev ws) (rv ! i) of Some v \<Rightarrow> v | None \<Rightarrow> vec ! i))"
proof (induction ws arbitrary: vec)
  case Nil then show ?case by simp
next
  case (Cons w ws)
  obtain l v where w: "w = (l, v)" by (cases w)
  let ?vec = "storeAt vec (map_of ind l) v"
  have len: "length ?vec = length rv" by (rule storeAt_okIndex(1)[OF assms Cons.prems])
  from Cons.IH[OF len] show ?case
    by (auto simp: w storeAt_okIndex(2)[OF assms Cons.prems] map_add_def split: option.splits)
qed

lemma configToVector_slots:
  assumes "engineOn K sc"
  shows "length (configToVector K q) = qConfigLength K"
    and "i < qConfigLength K \<Longrightarrow>
         configToVector K q ! i = slotValue q (qConfigIndexReversed K ! i)"
proof -
  note ix = engine_index[OF assms]
  have l0: "length (replicate (qConfigLength K) SENTINEL) = length (qConfigIndexReversed K)"
    by (simp add: ix(4))
  note f = fold_storeAt[OF ix(3) l0, of "writes q"]
  show "length (configToVector K q) = qConfigLength K"
    using f by (simp add: configToVector_def configToVectorLoop_writes ix(4))
  assume "i < qConfigLength K"
  then show "configToVector K q ! i = slotValue q (qConfigIndexReversed K ! i)"
    using f by (simp add: configToVector_def configToVectorLoop_writes ix(4) slotValue_def
        split: option.splits)
qed

lemma configToVector_eq:
  assumes "engineOn K sc"
  shows "configToVector K q = map (slotValue q) (qConfigIndexReversed K)"
  using configToVector_slots[OF assms] engine_index(4)[OF assms]
  by (intro nth_equalityI) simp_all

text \<open>Reading a vector back.\<close>

lemma endsWith_labels [simp]:
  "endsWith ''/x'' (k @ ''/x'')" "endsWith ''/y'' (k @ ''/y'')" "endsWith ''/z'' (k @ ''/z'')"
  "\<not> endsWith ''/x'' (k @ ''/y'')" "\<not> endsWith ''/x'' (k @ ''/z'')"
  "\<not> endsWith ''/y'' (k @ ''/z'')"
  by (simp_all add: endsWith_def)

lemma dropSuffix2_label [simp]:
  "dropSuffix2 (k @ [a, b]) = k"
  by (simp add: dropSuffix2_def)

lemma update_snoc:
  "k \<notin> fst ` set acc \<Longrightarrow> AList.update k r (acc @ [(k, r')]) = acc @ [(k, r)]"
  by (induction acc) auto

lemma map_of_snoc:
  "k \<notin> fst ` set acc \<Longrightarrow> map_of (acc @ [(k, r)]) k = Some r"
  by (induction acc) auto

lemma entryOf_three:
  "threeDof nm \<Longrightarrow>
   entryOf val nm = [(nm, Rot3Angles (val (nm @ ''/x'')) (val (nm @ ''/y'')) (val (nm @ ''/z'')))]"
  by (simp add: entryOf_def)

lemma entryOf_one: "oneDof nm \<Longrightarrow> entryOf val nm = [(nm, Number (val nm))]"
  by (simp add: entryOf_def oneDof_def threeDof_def)

lemma entryOf_none: "\<not> threeDof nm \<Longrightarrow> \<not> oneDof nm \<Longrightarrow> entryOf val nm = []"
  by (simp add: entryOf_def)

lemma vectorToConfigLoop_x:
  "map_of q k = None \<Longrightarrow>
   vectorToConfigLoop ((k @ ''/x'') # ls) (v # vs) q =
   vectorToConfigLoop ls vs (AList.update k (Rot3Angles v Undefined Undefined) q)"
  by simp

lemma vectorToConfigLoop_y:
  "map_of q k = Some (Rot3Angles a b c) \<Longrightarrow>
   vectorToConfigLoop ((k @ ''/y'') # ls) (v # vs) q =
   vectorToConfigLoop ls vs (AList.update k (Rot3Angles a v c) q)"
  by simp

lemma vectorToConfigLoop_z:
  "map_of q k = Some (Rot3Angles a b c) \<Longrightarrow>
   vectorToConfigLoop ((k @ ''/z'') # ls) (v # vs) q =
   vectorToConfigLoop ls vs (AList.update k (Rot3Angles a b v) q)"
  by simp

lemma vectorToConfigLoop_entries:
  assumes "distinct ks" "list_all plainName ks" "set ks \<inter> fst ` set acc = {}"
  shows "vectorToConfigLoop (concat (map dofLabels ks)) (map val (concat (map dofLabels ks))) acc
         = Inr (acc @ concat (map (entryOf val) ks))"
  using assms
proof (induction ks arbitrary: acc)
  case Nil then show ?case by simp
next
  case (Cons k ks)
  from Cons.prems have fresh: "k \<notin> fst ` set acc" and kn: "k \<notin> set ks" by auto
  have none: "map_of acc k = None" using fresh by (simp add: map_of_eq_None_iff)
  have IH: "vectorToConfigLoop (concat (map dofLabels ks)) (map val (concat (map dofLabels ks)))
              (acc @ e) = Inr ((acc @ e) @ concat (map (entryOf val) ks))"
    if "fst ` set e \<subseteq> {k}" for e
    using Cons.prems that kn by (intro Cons.IH) auto
  consider "threeDof k" | "oneDof k" | "\<not> threeDof k" "\<not> oneDof k" by blast
  then show ?case
  proof cases
    case 1
    let ?ls = "concat (map dofLabels ks)"
    let ?x = "val (k @ ''/x'')" let ?y = "val (k @ ''/y'')" let ?z = "val (k @ ''/z'')"
    have "vectorToConfigLoop (concat (map dofLabels (k # ks)))
            (map val (concat (map dofLabels (k # ks)))) acc =
          vectorToConfigLoop ((k @ ''/x'') # (k @ ''/y'') # (k @ ''/z'') # ?ls)
            (?x # ?y # ?z # map val ?ls) acc"
      using 1 by (simp add: dofLabels_three)
    also have "\<dots> = vectorToConfigLoop ((k @ ''/y'') # (k @ ''/z'') # ?ls) (?y # ?z # map val ?ls)
                        (acc @ [(k, Rot3Angles ?x Undefined Undefined)])"
      by (simp only: vectorToConfigLoop_x[OF none] update_fresh[OF fresh])
    also have "\<dots> = vectorToConfigLoop ((k @ ''/z'') # ?ls) (?z # map val ?ls)
                        (acc @ [(k, Rot3Angles ?x ?y Undefined)])"
      by (simp only: vectorToConfigLoop_y[OF map_of_snoc[OF fresh]] update_snoc[OF fresh])
    also have "\<dots> = vectorToConfigLoop ?ls (map val ?ls) (acc @ [(k, Rot3Angles ?x ?y ?z)])"
      by (simp only: vectorToConfigLoop_z[OF map_of_snoc[OF fresh]] update_snoc[OF fresh])
    also have "\<dots> = Inr ((acc @ [(k, Rot3Angles ?x ?y ?z)]) @ concat (map (entryOf val) ks))"
      by (rule IH) simp
    finally show ?thesis using 1 by (simp add: entryOf_three)
  next
    case 2
    with Cons.prems(2) have p: "\<not> endsWith ''/x'' k" "\<not> endsWith ''/y'' k" "\<not> endsWith ''/z'' k"
      by (simp_all add: plainName_def)
    show ?thesis
      using IH[of "[(k, Number (val k))]"] 2 p
      by (simp add: dofLabels_one entryOf_one update_fresh[OF fresh])
  next
    case 3
    then show ?thesis using IH[of "[]"] by (simp add: dofLabels_none entryOf_none)
  qed
qed

lemma engine_plain:
  assumes "engineOn K sc" "plainNames sc"
  shows "list_all plainName (map fst (mapK K))"
  using assms(2) engine_keys(3)[OF assms(1)]
  unfolding plainNames_def list_all_iff by simp

lemma vectorToConfig_values:
  assumes "engineOn K sc" "plainNames sc"
  shows "vectorToConfig K (map val (qConfigIndexReversed K)) =
         Inr (concat (map (entryOf val) (map fst (mapK K))))"
  using vectorToConfigLoop_entries[OF engine_keys(2)[OF assms(1)] engine_plain[OF assms],
      of "[]" val]
  by (simp add: vectorToConfig_def engine_index(1)[OF assms(1)] del: map_map)

lemma vectorToConfig_total:
  assumes "engineOn K sc" "plainNames sc" "length vec = qConfigLength K"
  shows "vectorToConfig K vec =
         Inr (concat (map (entryOf (\<lambda>l. vec ! the (map_of (qConfigIndex K) l)))
                        (map fst (mapK K))))"
proof -
  note ix = engine_index[OF assms(1)]
  have "vec = map (\<lambda>l. vec ! the (map_of (qConfigIndex K) l)) (qConfigIndexReversed K)"
  proof (intro nth_equalityI)
    show "length vec = length (map (\<lambda>l. vec ! the (map_of (qConfigIndex K) l)) (qConfigIndexReversed K))"
      using assms(3) ix(4) by simp
    fix i assume "i < length vec"
    then have i: "i < length (qConfigIndexReversed K)" using assms(3) ix(4) by simp
    then have "map_of (qConfigIndex K) (qConfigIndexReversed K ! i) = Some i"
      using ix(3) by (simp add: okIndex_def)
    with i show "vec ! i =
      map (\<lambda>l. vec ! the (map_of (qConfigIndex K) l)) (qConfigIndexReversed K) ! i" by simp
  qed
  then show ?thesis using vectorToConfig_values[OF assms(1,2)] by metis
qed

lemma roundtrip_entries:
  assumes "engineOn K sc" "plainNames sc"
  shows "vectorToConfig K (configToVector K q) =
         Inr (concat (map (entryOf (slotValue q)) (map fst (mapK K))))"
  by (simp only: configToVector_eq[OF assms(1)] vectorToConfig_values[OF assms])

lemma map_of_entries:
  "distinct ks \<Longrightarrow>
   map_of (concat (map (entryOf val) ks)) nm =
     (if nm \<in> set ks \<and> threeDof nm then
        Some (Rot3Angles (val (nm @ ''/x'')) (val (nm @ ''/y'')) (val (nm @ ''/z'')))
      else if nm \<in> set ks \<and> oneDof nm then Some (Number (val nm)) else None)"
proof (induction ks)
  case Nil then show ?case by simp
next
  case (Cons k ks)
  consider "threeDof k" | "oneDof k" | "\<not> threeDof k" "\<not> oneDof k" by blast
  then show ?case
  proof cases
    case 1 with Cons show ?thesis by (auto simp: entryOf_three oneDof_def threeDof_def)
  next
    case 2 with Cons show ?thesis by (auto simp: entryOf_one oneDof_def threeDof_def)
  next
    case 3 with Cons show ?thesis by (auto simp: entryOf_none)
  qed
qed

lemma writes_labels:
  assumes "wellShaped sc q"
  shows "map fst (writes q) = concat (map dofLabels (map fst q))"
proof -
  have "list_all (\<lambda>(nm, qv). case qv of Number v \<Rightarrow> oneDof nm | Rot3Angles a b c \<Rightarrow> threeDof nm) q
        \<Longrightarrow> map fst (writes q) = concat (map dofLabels (map fst q))"
  proof (induction q)
    case Nil then show ?case by (simp add: writes_def)
  next
    case (Cons a q)
    obtain nm qv where a: "a = (nm, qv)" by (cases a)
    from Cons have "map fst (writes q) = concat (map dofLabels (map fst q))" by simp
    moreover have "writes (a # q) =
        (case qv of Rot3Angles qx qy qz \<Rightarrow> [(nm @ ''/x'', qx), (nm @ ''/y'', qy), (nm @ ''/z'', qz)]
         | Number v \<Rightarrow> [(nm, v)]) @ writes q"
      by (simp add: writes_def a)
    ultimately show ?case using Cons.prems
      by (cases qv) (simp_all add: a dofLabels_one dofLabels_three del: map_map)
  qed
  moreover from assms
  have "list_all (\<lambda>(nm, qv). case qv of Number v \<Rightarrow> oneDof nm | Rot3Angles a b c \<Rightarrow> threeDof nm) q"
    unfolding wellShaped_def list_all_iff by auto
  ultimately show ?thesis by simp
qed

lemma slotValue_written:
  assumes "wellShaped sc q" "(l, v) \<in> set (writes q)"
  shows "slotValue q l = v"
proof -
  from assms(1) have "distinct (map fst q)" by (simp add: wellShaped_def)
  then have "distinct (map fst (writes q))"
    unfolding writes_labels[OF assms(1)] by (rule distinct_labels)
  then have "distinct (map fst (rev (writes q)))" by (simp add: rev_map[symmetric])
  moreover from assms(2) have "(l, v) \<in> set (rev (writes q))" by simp
  ultimately have "map_of (rev (writes q)) l = Some v" by (rule map_of_is_SomeI)
  then show ?thesis by (simp add: slotValue_def)
qed

lemma slotValue_unwritten:
  assumes "wellShaped sc q" "nm \<notin> fst ` set q" "l \<in> set (dofLabels nm)"
  shows "slotValue q l = SENTINEL"
proof -
  have "l \<notin> set (map fst (writes q))"
  proof
    assume "l \<in> set (map fst (writes q))"
    then obtain k where "k \<in> set (map fst q)" "l \<in> set (dofLabels k)"
      unfolding writes_labels[OF assms(1)] by auto
    with assms(3) dofLabels_joint have "nm = k" by blast
    with \<open>k \<in> set (map fst q)\<close> assms(2) show False by simp
  qed
  then have "map_of (rev (writes q)) l = None" by (simp add: map_of_eq_None_iff)
  then show ?thesis by (simp add: slotValue_def)
qed

lemma writes_member:
  "(nm, Number v) \<in> set q \<Longrightarrow> (nm, v) \<in> set (writes q)"
  "(nm, Rot3Angles a b c) \<in> set q \<Longrightarrow>
     (nm @ ''/x'', a) \<in> set (writes q) \<and> (nm @ ''/y'', b) \<in> set (writes q) \<and>
     (nm @ ''/z'', c) \<in> set (writes q)"
  by (force simp: writes_def)+

section \<open>The round trip through a configuration vector\<close>

lemma roundtrip_map_of:
  assumes "engineOn K sc" "wellShaped sc q"
  shows "map_of (concat (map (entryOf (slotValue q)) (map fst (mapK K)))) nm =
           (case map_of q nm of
              Some qv \<Rightarrow> Some qv
            | None \<Rightarrow> if nm \<in> set (map name sc) then sentinelEntry nm else None)"
proof -
  note keys = engine_keys[OF assms(1)]
  have m: "map_of (concat (map (entryOf (slotValue q)) (map fst (mapK K)))) nm =
     (if nm \<in> set (map name sc) \<and> threeDof nm then
        Some (Rot3Angles (slotValue q (nm @ ''/x'')) (slotValue q (nm @ ''/y''))
               (slotValue q (nm @ ''/z'')))
      else if nm \<in> set (map name sc) \<and> oneDof nm then Some (Number (slotValue q nm))
      else None)"
    using map_of_entries[OF keys(2), of "slotValue q" nm] unfolding keys(3) .
  from assms(2) have dq: "distinct (map fst q)" by (simp add: wellShaped_def)
  show ?thesis
  proof (cases "map_of q nm")
    case None
    then have nq: "nm \<notin> fst ` set q" by (simp add: map_of_eq_None_iff)
    have s: "slotValue q l = SENTINEL" if "l \<in> set (dofLabels nm)" for l
      using slotValue_unwritten[OF assms(2) nq that] .
    consider "threeDof nm" | "oneDof nm" | "\<not> threeDof nm" "\<not> oneDof nm" by blast
    then show ?thesis
    proof cases
      case 1
      with s have "slotValue q (nm @ ''/x'') = SENTINEL" "slotValue q (nm @ ''/y'') = SENTINEL"
        "slotValue q (nm @ ''/z'') = SENTINEL" by (simp_all add: dofLabels_three)
      with 1 None show ?thesis by (simp add: m sentinelEntry_def del: map_map set_map)
    next
      case 2
      with s have "slotValue q nm = SENTINEL" by (simp add: dofLabels_one)
      with 2 None show ?thesis
        by (simp add: m sentinelEntry_def del: map_map set_map) (simp add: oneDof_def threeDof_def)
    next
      case 3
      with None show ?thesis by (simp add: m sentinelEntry_def del: map_map set_map)
    qed
  next
    case (Some qv)
    then have mem: "(nm, qv) \<in> set q" by (rule map_of_SomeD)
    with assms(2) have inT: "nm \<in> set (map name sc)"
      and shape: "case qv of Number v \<Rightarrow> oneDof nm | Rot3Angles a b c \<Rightarrow> threeDof nm"
      unfolding wellShaped_def list_all_iff by auto
    show ?thesis
    proof (cases qv)
      case (Number v)
      with shape have o: "oneDof nm" by simp
      from mem Number have "slotValue q nm = v"
        by (intro slotValue_written[OF assms(2)] writes_member(1)) simp
      with o inT Some Number show ?thesis
        by (simp add: m del: map_map set_map) (simp add: oneDof_def threeDof_def)
    next
      case (Rot3Angles a b c)
      with shape have t: "threeDof nm" by simp
      from mem Rot3Angles have w: "(nm @ ''/x'', a) \<in> set (writes q)"
        "(nm @ ''/y'', b) \<in> set (writes q)" "(nm @ ''/z'', c) \<in> set (writes q)"
        using writes_member(2)[of nm a b c q] by simp_all
      have "slotValue q (nm @ ''/x'') = a" "slotValue q (nm @ ''/y'') = b"
        "slotValue q (nm @ ''/z'') = c"
        using w by (simp_all add: slotValue_written[OF assms(2)])
      with t inT Some Rot3Angles show ?thesis by (simp add: m del: map_map set_map)
    qed
  qed
qed

text \<open>
  Claim C3, as amended. The claim says the round trip returns \<open>q\<close> for a configuration
  over any subset of the joints; the source fills the slots \<open>q\<close> leaves out with the
  sentinel \<open>-1000\<close> and reads every slot back. For a configuration \<open>q\<close> over a subset of
  the tree's joints (a scalar under a single-axis name, a triple under a three-axis
  name), in a tree where no single-axis joint name ends in \<^verbatim>\<open>/x\<close>, \<^verbatim>\<open>/y\<close> or \<^verbatim>\<open>/z\<close>,
  \<^verbatim>\<open>vectorToConfig(configToVector(q))\<close> returns a configuration that agrees with \<open>q\<close> on the
  joints of \<open>q\<close> and gives every other joint of the index the sentinel (three times for
  a three-axis joint); it is \<open>q\<close> exactly when \<open>q\<close> has an entry for every joint of the
  index.
\<close>

theorem vectorToConfig_configToVector:
  assumes "engineOn K sc" "plainNames sc" "wellShaped sc q"
  shows "\<exists>q'. vectorToConfig K (configToVector K q) = Inr q' \<and>
           (\<forall>nm. map_of q' nm =
              (case map_of q nm of
                 Some qv \<Rightarrow> Some qv
               | None \<Rightarrow> if nm \<in> set (map name sc) then sentinelEntry nm else None)) \<and>
           ((map_of q' = map_of q) =
              (\<forall>nm \<in> set (map name sc). threeDof nm \<or> oneDof nm \<longrightarrow> map_of q nm \<noteq> None))"
proof -
  let ?q' = "concat (map (entryOf (slotValue q)) (map fst (mapK K)))"
  have r: "vectorToConfig K (configToVector K q) = Inr ?q'"
    by (rule roundtrip_entries[OF assms(1,2)])
  have m: "map_of ?q' nm =
      (case map_of q nm of Some qv \<Rightarrow> Some qv
       | None \<Rightarrow> if nm \<in> set (map name sc) then sentinelEntry nm else None)" for nm
    by (rule roundtrip_map_of[OF assms(1,3)])
  have "(map_of ?q' = map_of q) =
        (\<forall>nm \<in> set (map name sc). threeDof nm \<or> oneDof nm \<longrightarrow> map_of q nm \<noteq> None)"
  proof
    assume eq: "map_of ?q' = map_of q"
    show "\<forall>nm \<in> set (map name sc). threeDof nm \<or> oneDof nm \<longrightarrow> map_of q nm \<noteq> None"
    proof (intro ballI impI)
      fix nm assume nm: "nm \<in> set (map name sc)" "threeDof nm \<or> oneDof nm"
      show "map_of q nm \<noteq> None"
      proof
        assume n: "map_of q nm = None"
        with m[of nm] nm have "map_of ?q' nm \<noteq> None" by (auto simp: sentinelEntry_def)
        with eq n show False by simp
      qed
    qed
  next
    assume all: "\<forall>nm \<in> set (map name sc). threeDof nm \<or> oneDof nm \<longrightarrow> map_of q nm \<noteq> None"
    show "map_of ?q' = map_of q"
    proof
      fix nm
      show "map_of ?q' nm = map_of q nm"
        using m[of nm] all by (auto simp: sentinelEntry_def split: option.splits)
    qed
  qed
  with r m show ?thesis by blast
qed

theorem vectorToConfig_configToVector_witness:
  "engineOn legEngine legTree \<and> plainNames legTree \<and>
   wellShaped legTree [(''RJoint_Knee_Z_L'', Number (Fin 1))] \<and>
   (\<exists>q'. vectorToConfig legEngine
            (configToVector legEngine [(''RJoint_Knee_Z_L'', Number (Fin 1))]) = Inr q' \<and>
      map_of q' ''RJoint_Knee_Z_L'' = Some (Number (Fin 1)) \<and>
      map_of q' ''RJoint_Hip_XYZ_L'' = Some (Rot3Angles SENTINEL SENTINEL SENTINEL) \<and>
      map_of q' ''Body'' = None)"
proof -
  have h: "engineOn legEngine legTree" by (simp add: engineOn_def example_defs)
  have p: "plainNames legTree"
    by (simp add: plainNames_def plainName_def legTree_def node_def oneDof_def startsWith_def
        endsWith_def)
  have w: "wellShaped legTree [(''RJoint_Knee_Z_L'', Number (Fin 1))]"
    by (simp add: wellShaped_def legTree_def node_def oneDof_def startsWith_def)
  from vectorToConfig_configToVector[OF h p w] obtain q' where
    q': "vectorToConfig legEngine
            (configToVector legEngine [(''RJoint_Knee_Z_L'', Number (Fin 1))]) = Inr q'"
    "\<And>nm. map_of q' nm =
       (case map_of [(''RJoint_Knee_Z_L'', Number (Fin 1))] nm of
          Some qv \<Rightarrow> Some qv
        | None \<Rightarrow> if nm \<in> set (map name legTree) then sentinelEntry nm else None)"
    by blast
  have "map_of q' ''RJoint_Knee_Z_L'' = Some (Number (Fin 1))"
    "map_of q' ''RJoint_Hip_XYZ_L'' = Some (Rot3Angles SENTINEL SENTINEL SENTINEL)"
    "map_of q' ''Body'' = None"
    by (simp_all add: q'(2) legTree_def node_def sentinelEntry_def threeDof_def oneDof_def
        startsWith_def)
  with h p w q'(1) show ?thesis by blast
qed

theorem roundtrip_partial_config_differs:
  "vectorToConfig legEngine (configToVector legEngine [(''RJoint_Knee_Z_L'', Number (Fin 1))]) =
     Inr [(''RJoint_Hip_XYZ_L'', Rot3Angles (Fin (- 1000)) (Fin (- 1000)) (Fin (- 1000))),
          (''RJoint_Knee_Z_L'', Number (Fin 1))]"
  by (simp add: example_defs configToVector_def vectorToConfig_def SENTINEL_def storeAt_def
      store_def dropSuffix2_def)

section \<open>What \<^verbatim>\<open>setConfiguration\<close> changes\<close>

lemma map_update_same:
  "f x = f (sc ! j) \<Longrightarrow> map f (sc[j := x]) = map f sc"
  by (induction sc arbitrary: j) (auto split: nat.splits)

lemma recompute_fields [simp]:
  "name (recompute L sc j) = name (sc ! j)"
  "rotation (recompute L sc j) = rotation (sc ! j)"
  "parent (recompute L sc j) = parent (sc ! j)"
  by (simp_all add: recompute_def)

lemma updateDescendants_keeps:
  "map name (updateDescendants L vs js sc) = map name sc \<and>
   map rotation (updateDescendants L vs js sc) = map rotation sc \<and>
   map parent (updateDescendants L vs js sc) = map parent sc"
  by (induction js arbitrary: vs sc) (auto simp: map_update_same split: option.splits)

lemma updateMatrixWorld_keeps [simp]:
  "map name (updateMatrixWorld L c sc) = map name sc"
  "map rotation (updateMatrixWorld L c sc) = map rotation sc"
  "map parent (updateMatrixWorld L c sc) = map parent sc"
  by (simp_all add: updateMatrixWorld_def updateDescendants_keeps map_update_same)

lemma setConfiguration_keeps:
  "map name (snd (setConfiguration L K q sc)) = map name sc \<and>
   map parent (snd (setConfiguration L K q sc)) = map parent sc"
proof (induction q arbitrary: sc)
  case Nil then show ?case by simp
next
  case (Cons e q)
  obtain j qv where e: "e = (j, qv)" by (cases e)
  show ?case by (simp add: e Cons.IH map_update_same split: option.splits)
qed

lemma setConfiguration_ok:
  "(\<forall>k \<in> fst ` set q. map_of (mapK K) k \<noteq> None) \<Longrightarrow>
   fst (setConfiguration L K q sc) = Inr ()"
proof (induction q arbitrary: sc)
  case Nil then show ?case by simp
next
  case (Cons e q)
  obtain j qv where e: "e = (j, qv)" by (cases e)
  from Cons.prems e obtain c where "map_of (mapK K) j = Some c" by auto
  with Cons show ?case by (simp add: e)
qed

lemma setConfiguration_raises:
  "\<exists>k \<in> fst ` set q. map_of (mapK K) k = None \<Longrightarrow>
   fst (setConfiguration L K q sc) = Inl TypeError"
proof (induction q arbitrary: sc)
  case Nil then show ?case by simp
next
  case (Cons e q)
  obtain j qv where e: "e = (j, qv)" by (cases e)
  show ?case
  proof (cases "map_of (mapK K) j")
    case None then show ?thesis by (simp add: e)
  next
    case (Some c)
    with Cons.prems e have "\<exists>k \<in> fst ` set q. map_of (mapK K) k = None" by auto
    with Some Cons.IH show ?thesis by (simp add: e)
  qed
qed

lemma setConfiguration_rotations:
  "(\<forall>k \<in> fst ` set q. map_of (mapK K) k \<noteq> None) \<Longrightarrow>
   map rotation (snd (setConfiguration L K q sc)) =
     fold (rotate (yup K) (mapK K)) q (map rotation sc)"
proof (induction q arbitrary: sc)
  case Nil then show ?case by simp
next
  case (Cons e q)
  obtain j qv where e: "e = (j, qv)" by (cases e)
  from Cons.prems e obtain c where c: "map_of (mapK K) j = Some c" by auto
  let ?sc = "sc[c := (sc ! c)\<lparr> rotation := newRotation (yup K) qv (rotation (sc ! c)) \<rparr>]"
  have "map rotation ?sc = (map rotation sc)[c := newRotation (yup K) qv (map rotation sc ! c)]"
    by (cases "c < length sc") (simp_all add: map_update list_update_beyond)
  with Cons c show ?case by (simp add: e rotate_def)
qed

lemma fold_rotate_length [simp]: "length (fold (rotate yp m) q rs) = length rs"
  by (induction q arbitrary: rs) (simp_all add: rotate_def split: option.splits)

text \<open>Where the keys of a configuration go to different nodes, a node is touched by its
  own entry only.\<close>

lemma fold_rotate_other:
  "(\<forall>e \<in> set q. map_of m (fst e) \<noteq> Some c) \<Longrightarrow> fold (rotate yp m) q rs ! c = rs ! c"
proof (induction q arbitrary: rs)
  case Nil then show ?case by simp
next
  case (Cons e q)
  then show ?case by (auto simp: rotate_def split: option.splits)
qed

lemma rotate_Some:
  "map_of m (fst e) = Some c \<Longrightarrow> rotate yp m e rs = rs[c := newRotation yp (snd e) (rs ! c)]"
  by (simp add: rotate_def)

lemma fold_rotate_own:
  assumes "distinct (map fst q)" "(k, qv) \<in> set q" "map_of m k = Some c" "c < length rs"
    and inj: "\<And>k'. k' \<in> fst ` set q \<Longrightarrow> map_of m k' = Some c \<Longrightarrow> k' = k"
  shows "fold (rotate yp m) q rs ! c = newRotation yp qv (rs ! c)"
  using assms
proof (induction q arbitrary: rs)
  case Nil then show ?case by simp
next
  case (Cons e q)
  show ?case
  proof (cases "e = (k, qv)")
    case True
    with Cons.prems(1) have nk: "k \<notin> fst ` set q" by simp
    have "\<forall>e' \<in> set q. map_of m (fst e') \<noteq> Some c"
    proof (intro ballI notI)
      fix e' assume e': "e' \<in> set q" "map_of m (fst e') = Some c"
      then have "fst e' \<in> fst ` set (e # q)" by simp
      with Cons.prems(5) e'(2) have "fst e' = k" by blast
      with e'(1) nk show False by (metis image_eqI)
    qed
    then have "fold (rotate yp m) q (rotate yp m e rs) ! c = rotate yp m e rs ! c"
      by (rule fold_rotate_other)
    moreover have "rotate yp m e rs = rs[c := newRotation yp qv (rs ! c)]"
      using True Cons.prems(3) by (simp add: rotate_Some)
    ultimately show ?thesis using Cons.prems(4) by simp
  next
    case False
    with Cons.prems(2) have mem: "(k, qv) \<in> set q" by simp
    then have "k \<in> fst ` set q" by (metis image_eqI fst_conv)
    with Cons.prems(1) have "fst e \<noteq> k" by auto
    moreover have "fst e \<in> fst ` set (e # q)" by simp
    ultimately have ne: "map_of m (fst e) \<noteq> Some c" using Cons.prems(5) by blast
    have same: "rotate yp m e rs ! c = rs ! c"
    proof (cases "map_of m (fst e)")
      case None then show ?thesis by (simp add: rotate_def)
    next
      case (Some c')
      with ne have "c' \<noteq> c" by simp
      with Some show ?thesis by (simp add: rotate_def)
    qed
    have len: "c < length (rotate yp m e rs)"
      using Cons.prems(4) by (simp add: rotate_def split: option.splits)
    have d: "distinct (map fst q)" using Cons.prems(1) by simp
    have "fold (rotate yp m) q (rotate yp m e rs) ! c = newRotation yp qv (rotate yp m e rs ! c)"
    proof (rule Cons.IH[OF d mem Cons.prems(3) len])
      fix k' assume "k' \<in> fst ` set q" "map_of m k' = Some c"
      then show "k' = k" using Cons.prems(5)[of k'] by simp
    qed
    with same show ?thesis by simp
  qed
qed

section \<open>The engine over the example tree\<close>

text \<open>With the library instance \<open>originLib\<close> every world matrix is the identity, so
  \<^verbatim>\<open>updateMatrixWorld\<close> leaves a tree of identity matrices as it is.\<close>

lemma recompute_origin:
  "matrixWorld (sc ! j) = identity4 \<Longrightarrow> recompute originLib sc j = sc ! j"
  by (simp add: recompute_def originLib_def)

lemma updateDescendants_origin:
  "list_all (\<lambda>n. matrixWorld n = identity4) sc \<Longrightarrow> updateDescendants originLib visited js sc = sc"
proof (induction js arbitrary: visited)
  case Nil then show ?case by simp
next
  case (Cons j js)
  have "sc[j := recompute originLib sc j] = sc"
  proof (cases "j < length sc")
    case True
    with Cons.prems have "matrixWorld (sc ! j) = identity4" by (simp add: list_all_length)
    then show ?thesis by (simp add: recompute_origin)
  next
    case False then show ?thesis by (simp add: list_update_beyond)
  qed
  with Cons show ?case by (simp split: option.splits)
qed

lemma updateMatrixWorld_origin:
  assumes "list_all (\<lambda>n. matrixWorld n = identity4) sc"
  shows "updateMatrixWorld originLib c sc = sc"
proof -
  have "sc[c := recompute originLib sc c] = sc"
  proof (cases "c < length sc")
    case True
    with assms have "matrixWorld (sc ! c) = identity4" by (simp add: list_all_length)
    then show ?thesis by (simp add: recompute_origin)
  next
    case False then show ?thesis by (simp add: list_update_beyond)
  qed
  with assms show ?thesis by (simp add: updateMatrixWorld_def updateDescendants_origin)
qed

text \<open>The constructor over \<open>bearTree\<close>, step by step: the index, the captured
  configuration, the home configuration, the tree with the home configuration applied,
  and the restored tree.\<close>

lemma bear_init:
  "Kinematics_init bearTree False =
     \<lparr> rootK = 0,
       mapK = [(''Bear'', 0), (''Effector_Back_L'', 3), (''RJoint_Back_Lower_Z_L'', 2),
               (''RJoint_Back_Lower_Z_R'', 4), (''RJoint_Back_Upper_XYZ_L'', 1),
               (''RJoint_Front_Lower_Z_L'', 5), (''RJoint_Front_Lower_Z_R'', 6)],
       homePositionConfig = [], homePositionFwd = [],
       qConfigIndex = [(''RJoint_Back_Lower_Z_L'', 0), (''RJoint_Back_Lower_Z_R'', 1),
                       (''RJoint_Back_Upper_XYZ_L/x'', 2), (''RJoint_Back_Upper_XYZ_L/y'', 3),
                       (''RJoint_Back_Upper_XYZ_L/z'', 4), (''RJoint_Front_Lower_Z_L'', 5),
                       (''RJoint_Front_Lower_Z_R'', 6)],
       qConfigIndexReversed = [''RJoint_Back_Lower_Z_L'', ''RJoint_Back_Lower_Z_R'',
                       ''RJoint_Back_Upper_XYZ_L/x'', ''RJoint_Back_Upper_XYZ_L/y'',
                       ''RJoint_Back_Upper_XYZ_L/z'', ''RJoint_Front_Lower_Z_L'',
                       ''RJoint_Front_Lower_Z_R''],
       qConfigLength = 7, yup = False \<rparr>"
  by code_simp

lemma bear_current:
  "getCurrentStateConfig (Kinematics_init bearTree False) bearTree =
     [(''RJoint_Back_Lower_Z_L'', Number (Fin 0)), (''RJoint_Back_Lower_Z_R'', Number (Fin 0)),
      (''RJoint_Back_Upper_XYZ_L'', Rot3Angles (Fin 0) (Fin 0) (Fin 0)),
      (''RJoint_Front_Lower_Z_L'', Number (Fin 0)), (''RJoint_Front_Lower_Z_R'', Number (Fin 0))]"
  by code_simp

lemma bear_home:
  "homeConfig (Kinematics_init bearTree False) bearTree =
     [(''RJoint_Back_Lower_Z_L'', Number (Fin (pi / 4))),
      (''RJoint_Back_Lower_Z_R'', Number (Fin (- (pi / 4)))),
      (''RJoint_Back_Upper_XYZ_L'', Rot3Angles (Fin 0) (Fin 0) (Fin 0)),
      (''RJoint_Front_Lower_Z_L'', Number (Fin (- (pi / 8)))),
      (''RJoint_Front_Lower_Z_R'', Number (Fin (pi / 8)))]"
  by (simp add: homeConfig_def bear_current addToEntry_def numberAt_def)

lemma bear_set_home:
  "setConfiguration originLib
     ((Kinematics_init bearTree False)\<lparr> homePositionConfig := h \<rparr>)
     (homeConfig (Kinematics_init bearTree False) bearTree) bearTree =
   (Inr (), [node ''Bear'' None,
      (node ''RJoint_Back_Upper_XYZ_L'' (Some 0)),
      (node ''RJoint_Back_Lower_Z_L'' (Some 1))\<lparr> rotation := Euler (Fin 0) (Fin 0) (Fin (pi / 4)) \<rparr>,
      node ''Effector_Back_L'' (Some 2),
      (node ''RJoint_Back_Lower_Z_R'' (Some 0))\<lparr> rotation := Euler (Fin 0) (Fin 0) (Fin (- (pi / 4))) \<rparr>,
      (node ''RJoint_Front_Lower_Z_L'' (Some 0))\<lparr> rotation := Euler (Fin 0) (Fin 0) (Fin (- (pi / 8))) \<rparr>,
      (node ''RJoint_Front_Lower_Z_R'' (Some 0))\<lparr> rotation := Euler (Fin 0) (Fin 0) (Fin (pi / 8)) \<rparr>])"
  apply (subst bear_home)
  apply (simp only: bear_init)
  apply (simp add: bearTree_def newRotation_def updateMatrixWorld_origin node_def)
  done

lemma bear_restore:
  "setConfiguration originLib
     ((Kinematics_init bearTree False)\<lparr> homePositionConfig := h \<rparr>)
     (getCurrentStateConfig (Kinematics_init bearTree False) bearTree)
     [node ''Bear'' None,
      (node ''RJoint_Back_Upper_XYZ_L'' (Some 0)),
      (node ''RJoint_Back_Lower_Z_L'' (Some 1))\<lparr> rotation := Euler (Fin 0) (Fin 0) (Fin (pi / 4)) \<rparr>,
      node ''Effector_Back_L'' (Some 2),
      (node ''RJoint_Back_Lower_Z_R'' (Some 0))\<lparr> rotation := Euler (Fin 0) (Fin 0) (Fin (- (pi / 4))) \<rparr>,
      (node ''RJoint_Front_Lower_Z_L'' (Some 0))\<lparr> rotation := Euler (Fin 0) (Fin 0) (Fin (- (pi / 8))) \<rparr>,
      (node ''RJoint_Front_Lower_Z_R'' (Some 0))\<lparr> rotation := Euler (Fin 0) (Fin 0) (Fin (pi / 8)) \<rparr>]
   = (Inr (), bearTree)"
  apply (subst bear_current)
  apply (simp only: bear_init)
  apply (simp add: bearTree_def newRotation_def updateMatrixWorld_origin node_def)
  done

lemma bear_links:
  "forwardKinematicsRec
     [node ''Bear'' None,
      (node ''RJoint_Back_Upper_XYZ_L'' (Some 0)),
      (node ''RJoint_Back_Lower_Z_L'' (Some 1))\<lparr> rotation := r1 \<rparr>,
      node ''Effector_Back_L'' (Some 2),
      (node ''RJoint_Back_Lower_Z_R'' (Some 0))\<lparr> rotation := r2 \<rparr>,
      (node ''RJoint_Front_Lower_Z_L'' (Some 0))\<lparr> rotation := r3 \<rparr>,
      (node ''RJoint_Front_Lower_Z_R'' (Some 0))\<lparr> rotation := r4 \<rparr>] [] =
   forwardKinematicsRec bearTree []"
  by (simp add: forwardKinematicsRec_def bearTree_def node_def)

lemma bearEngine_constructed:
  "Kinematics_new originLib bearTree False = (Inr bearEngine, bearTree)"
proof -
  let ?K = "Kinematics_init bearTree False"
  let ?h = "homeConfig ?K bearTree"
  have c: "getCurrentStateConfig (?K\<lparr> homePositionConfig := ?h \<rparr>) bearTree =
           getCurrentStateConfig ?K bearTree"
    by (simp add: getCurrentStateConfig_def)
  have "forwardKinematics originLib (?K\<lparr> homePositionConfig := ?h \<rparr>) ?h identity4 bearTree =
        (Inr (forwardKinematicsRec bearTree []), bearTree)"
    unfolding forwardKinematics_def Let_def c bear_set_home
    by (simp only: prod.case sum.case bear_links bear_restore)
  then show ?thesis
    by (simp add: Kinematics_new_def Let_def bearEngine_def)
qed

lemma engineOn_bear: "engineOn bearEngine bearTree"
  using engineOn_new[of originLib bearTree False bearEngine] by (simp add: bearEngine_constructed)

lemma bearEngine_fields:
  "rootK bearEngine = 0"
  "mapK bearEngine =
     [(''Bear'', 0), (''Effector_Back_L'', 3), (''RJoint_Back_Lower_Z_L'', 2),
      (''RJoint_Back_Lower_Z_R'', 4), (''RJoint_Back_Upper_XYZ_L'', 1),
      (''RJoint_Front_Lower_Z_L'', 5), (''RJoint_Front_Lower_Z_R'', 6)]"
  "qConfigIndex bearEngine =
     [(''RJoint_Back_Lower_Z_L'', 0), (''RJoint_Back_Lower_Z_R'', 1),
      (''RJoint_Back_Upper_XYZ_L/x'', 2), (''RJoint_Back_Upper_XYZ_L/y'', 3),
      (''RJoint_Back_Upper_XYZ_L/z'', 4), (''RJoint_Front_Lower_Z_L'', 5),
      (''RJoint_Front_Lower_Z_R'', 6)]"
  "qConfigIndexReversed bearEngine =
     [''RJoint_Back_Lower_Z_L'', ''RJoint_Back_Lower_Z_R'',
      ''RJoint_Back_Upper_XYZ_L/x'', ''RJoint_Back_Upper_XYZ_L/y'',
      ''RJoint_Back_Upper_XYZ_L/z'', ''RJoint_Front_Lower_Z_L'',
      ''RJoint_Front_Lower_Z_R'']"
  "qConfigLength bearEngine = 7"
  "yup bearEngine = False"
  by (simp_all add: bearEngine_def bear_init)

lemma bear_plain: "plainNames bearTree"
  by (simp add: plainNames_def plainName_def bearTree_def node_def oneDof_def startsWith_def
      endsWith_def)

lemma bear_config:
  "getCurrentStateConfig bearEngine bearTree =
     [(''RJoint_Back_Lower_Z_L'', Number (Fin 0)), (''RJoint_Back_Lower_Z_R'', Number (Fin 0)),
      (''RJoint_Back_Upper_XYZ_L'', Rot3Angles (Fin 0) (Fin 0) (Fin 0)),
      (''RJoint_Front_Lower_Z_L'', Number (Fin 0)), (''RJoint_Front_Lower_Z_R'', Number (Fin 0))]"
  by (simp add: getCurrentStateConfig_def bearEngine_fields bearTree_def node_def startsWith_def)

section \<open>Forward kinematics\<close>

lemma getNameChildMapFrom_names:
  "map name sc = map name sc' \<Longrightarrow> getNameChildMapFrom i sc m = getNameChildMapFrom i sc' m"
proof (induction sc arbitrary: sc' i m)
  case Nil then show ?case by simp
next
  case (Cons a sc)
  then obtain b sc'' where s: "sc' = b # sc''" by (cases sc') auto
  with Cons show ?case by simp
qed

lemma engineOn_names:
  "engineOn K sc \<Longrightarrow> map name sc' = map name sc \<Longrightarrow> engineOn K sc'"
  using getNameChildMapFrom_names[of sc' sc 0 "[]"]
  by (simp add: engineOn_def getNameChildMap_def)

lemma getCurrentStateConfigLoop_keys:
  "distinct (map fst q) \<Longrightarrow> distinct (map fst (getCurrentStateConfigLoop sc m q))"
proof (induction m arbitrary: q)
  case Nil then show ?case by simp
next
  case (Cons a m)
  obtain k c where a: "a = (k, c)" by (cases a)
  show ?case using Cons.prems by (simp add: a Cons.IH distinct_update)
qed

lemma getCurrentStateConfig_distinct: "distinct (map fst (getCurrentStateConfig K sc))"
  by (simp add: getCurrentStateConfig_def getCurrentStateConfigLoop_keys)

lemma getCurrentStateConfigLoop_cong:
  "(\<forall>(n, c) \<in> set m. captured n \<longrightarrow>
       reading n (rotation (sc ! c)) = reading n (rotation (sc' ! c))) \<Longrightarrow>
   getCurrentStateConfigLoop sc m q = getCurrentStateConfigLoop sc' m q"
proof (induction m arbitrary: q)
  case Nil then show ?case by simp
next
  case (Cons a m)
  obtain k c where a: "a = (k, c)" by (cases a)
  from Cons.prems a have r: "captured k \<Longrightarrow>
      reading k (rotation (sc ! c)) = reading k (rotation (sc' ! c))" by simp
  have "(if startsWith ''RJoint_'' k then
          (if includesStr ''_XYZ_'' k then
             AList.update k
               (Rot3Angles (ex (rotation (sc ! c))) (ey (rotation (sc ! c)))
                  (ez (rotation (sc ! c)))) q
           else if includesStr ''_Z_'' k then
             AList.update k (Number (ez (rotation (sc ! c)))) q
           else q)
        else q) =
        (if startsWith ''RJoint_'' k then
          (if includesStr ''_XYZ_'' k then
             AList.update k
               (Rot3Angles (ex (rotation (sc' ! c))) (ey (rotation (sc' ! c)))
                  (ez (rotation (sc' ! c)))) q
           else if includesStr ''_Z_'' k then
             AList.update k (Number (ez (rotation (sc' ! c)))) q
           else q)
        else q)"
    using r by (auto simp: captured_def reading_def threeDof_def oneDof_def)
  moreover have "getCurrentStateConfigLoop sc m q' = getCurrentStateConfigLoop sc' m q'" for q'
    using Cons.prems by (intro Cons.IH) simp
  ultimately show ?case by (simp add: a)
qed

lemma getCurrentStateConfig_keys_in_tree:
  assumes "engineOn K sc" "k \<in> fst ` set (getCurrentStateConfig K sc)"
  shows "k \<in> set (map name sc) \<and> captured k"
proof -
  from assms(2) have "map_of (getCurrentStateConfig K sc) k \<noteq> None"
    by (simp add: map_of_eq_None_iff)
  then show ?thesis
    using engine_map_dom[OF assms(1), of k]
    by (auto simp: getCurrentStateConfig_map_of[OF assms(1)] split: option.splits if_splits)
qed

text \<open>Under the Y-up convention a scalar entry leaves \<^verbatim>\<open>rotation.z\<close> alone.\<close>

lemma fold_rotate_ez:
  "(\<forall>e \<in> set q. map_of m (fst e) = Some c \<longrightarrow> (\<exists>v. snd e = Number v)) \<Longrightarrow>
   c < length rs \<Longrightarrow> ez (fold (rotate True m) q rs ! c) = ez (rs ! c)"
proof (induction q arbitrary: rs)
  case Nil then show ?case by simp
next
  case (Cons e q)
  have len: "c < length (rotate True m e rs)"
    using Cons.prems(2) by (simp add: rotate_def split: option.splits)
  have "ez (rotate True m e rs ! c) = ez (rs ! c)"
  proof (cases "map_of m (fst e) = Some c")
    case True
    with Cons.prems(1) obtain v where "snd e = Number v" by auto
    with True Cons.prems(2) show ?thesis by (simp add: rotate_Some newRotation_def)
  next
    case False
    then show ?thesis by (cases "map_of m (fst e)") (auto simp: rotate_def)
  qed
  moreover have "ez (fold (rotate True m) q (rotate True m e rs) ! c) = ez (rotate True m e rs ! c)"
    using Cons.prems(1) len by (intro Cons.IH) simp_all
  ultimately show ?case by simp
qed

lemma forwardKinematics_restores_aux:
  assumes eng: "engineOn K sc"
    and keys: "\<forall>k \<in> fst ` set q. k \<in> set (map name sc)"
    and shape: "yup K \<longrightarrow>
        (\<forall>(nm, qv) \<in> set q. captured nm \<and> \<not> threeDof nm \<longrightarrow> (\<exists>v. qv = Number v))"
  shows "\<exists>sc'. forwardKinematics L K q A sc =
            (Inr (forwardKinematicsRec (snd (setConfiguration L K q sc)) []), sc') \<and>
           map name sc' = map name sc \<and> map parent sc' = map parent sc \<and>
           getCurrentStateConfig K sc' = getCurrentStateConfig K sc"
proof -
  let ?old = "getCurrentStateConfig K sc"
  let ?m = "mapK K"
  obtain sc1 where sc1: "sc1 = snd (setConfiguration L K q sc)" by simp
  obtain sc2 where sc2: "sc2 = snd (setConfiguration L K ?old sc1)" by simp
  have k1: "\<forall>k \<in> fst ` set q. map_of ?m k \<noteq> None"
    using keys engine_map_dom[OF eng] by simp
  have ok1: "fst (setConfiguration L K q sc) = Inr ()" by (rule setConfiguration_ok[OF k1])
  have k2: "\<forall>k \<in> fst ` set ?old. map_of ?m k \<noteq> None"
    using getCurrentStateConfig_keys_in_tree[OF eng] engine_map_dom[OF eng] by blast
  have ok2: "fst (setConfiguration L K ?old sc1) = Inr ()" by (rule setConfiguration_ok[OF k2])
  have e1: "setConfiguration L K q sc = (Inr (), sc1)"
    using ok1 sc1 by (simp add: prod_eq_iff)
  have e2: "setConfiguration L K ?old sc1 = (Inr (), sc2)"
    using ok2 sc2 by (simp add: prod_eq_iff)
  have fk: "forwardKinematics L K q A sc = (Inr (forwardKinematicsRec sc1 []), sc2)"
    by (simp add: forwardKinematics_def Let_def e1 e2)
  have n1: "map name sc1 = map name sc" "map parent sc1 = map parent sc"
    using setConfiguration_keeps[of L K q sc] sc1 by simp_all
  have n2: "map name sc2 = map name sc" "map parent sc2 = map parent sc"
    using setConfiguration_keeps[of L K ?old sc1] sc2 n1 by simp_all
  have l1: "length sc1 = length sc" using n1(1) by (metis length_map)
  have l2: "length sc2 = length sc" using n2(1) by (metis length_map)
  have r1: "map rotation sc1 = fold (rotate (yup K) ?m) q (map rotation sc)"
    unfolding sc1 by (rule setConfiguration_rotations[OF k1])
  have r2: "map rotation sc2 = fold (rotate (yup K) ?m) ?old (map rotation sc1)"
    unfolding sc2 by (rule setConfiguration_rotations[OF k2])
  have same: "reading n (rotation (sc2 ! c)) = reading n (rotation (sc ! c))"
    if nc: "(n, c) \<in> set ?m" and cap: "captured n" for n c
  proof -
    from nc engine_keys(2)[OF eng] have mc: "map_of ?m n = Some c" by (rule map_of_is_SomeI[rotated])
    from engine_map_val[OF eng mc] have c: "c < length sc" "name (sc ! c) = n" by simp_all
    have old: "(n, reading n (rotation (sc ! c))) \<in> set ?old"
      using getCurrentStateConfig_map_of[OF eng, of n] mc cap by (intro map_of_SomeD) simp
    have inj: "k' = n" if "k' \<in> fst ` set ?old" "map_of ?m k' = Some c" for k'
      using engine_map_val[OF eng that(2)] c(2) by simp
    have "fold (rotate (yup K) ?m) ?old (map rotation sc1) ! c =
          newRotation (yup K) (reading n (rotation (sc ! c))) (map rotation sc1 ! c)"
      by (rule fold_rotate_own[OF getCurrentStateConfig_distinct old mc _ inj])
         (simp_all add: l1 c(1))
    moreover have "rotation (sc2 ! c) = map rotation sc2 ! c"
      "rotation (sc1 ! c) = map rotation sc1 ! c"
      using c(1) l1 l2 by simp_all
    ultimately have s2: "rotation (sc2 ! c) =
        newRotation (yup K) (reading n (rotation (sc ! c))) (rotation (sc1 ! c))"
      by (simp only: r2)
    show ?thesis
    proof (cases "threeDof n")
      case True
      then show ?thesis by (simp add: s2 reading_def newRotation_def)
    next
      case False
      show ?thesis
      proof (cases "yup K")
        case F: False
        with False show ?thesis by (simp add: s2 reading_def newRotation_def)
      next
        case True
        have "\<forall>e \<in> set q. map_of ?m (fst e) = Some c \<longrightarrow> (\<exists>v. snd e = Number v)"
        proof (intro ballI impI)
          fix e assume e: "e \<in> set q" "map_of ?m (fst e) = Some c"
          from engine_map_val[OF eng e(2)] c(2) have "fst e = n" by simp
          moreover obtain k qv where kq: "e = (k, qv)" by (cases e)
          ultimately have "(n, qv) \<in> set q" using e(1) by simp
          with shape True cap False have "\<exists>v. qv = Number v" by blast
          with kq show "\<exists>v. snd e = Number v" by simp
        qed
        then have "ez (fold (rotate True ?m) q (map rotation sc) ! c) = ez (map rotation sc ! c)"
          by (rule fold_rotate_ez) (simp add: c(1))
        moreover have "rotation (sc1 ! c) = map rotation sc1 ! c"
          "rotation (sc ! c) = map rotation sc ! c"
          using c(1) l1 by simp_all
        ultimately have "ez (rotation (sc1 ! c)) = ez (rotation (sc ! c))"
          using True by (simp only: r1)
        with False True show ?thesis by (simp add: s2 reading_def newRotation_def)
      qed
    qed
  qed
  have "getCurrentStateConfigLoop sc2 ?m [] = getCurrentStateConfigLoop sc ?m []"
  proof (rule getCurrentStateConfigLoop_cong, intro ballI)
    fix x assume x: "x \<in> set ?m"
    obtain n c where nc: "x = (n, c)" by (cases x)
    from same[of n c] x nc
    show "case x of (n, c) \<Rightarrow> captured n \<longrightarrow>
            reading n (rotation (sc2 ! c)) = reading n (rotation (sc ! c))" by simp
  qed
  then have "getCurrentStateConfig K sc2 = getCurrentStateConfig K sc"
    by (simp add: getCurrentStateConfig_def)
  with fk n2 sc1 show ?thesis by blast
qed

lemma wellShaped_applies:
  assumes "wellShaped sc q"
  shows "\<forall>k \<in> fst ` set q. k \<in> set (map name sc)"
    and "yup K \<longrightarrow>
      (\<forall>(nm, qv) \<in> set q. captured nm \<and> \<not> threeDof nm \<longrightarrow> (\<exists>v. qv = Number v))"
proof -
  show "\<forall>k \<in> fst ` set q. k \<in> set (map name sc)"
    using assms unfolding wellShaped_def list_all_iff by auto
  have "\<exists>v. qv = Number v" if "(nm, qv) \<in> set q" "\<not> threeDof nm" for nm qv
  proof -
    from assms that(1) have "case qv of Number v \<Rightarrow> oneDof nm | Rot3Angles a b c \<Rightarrow> threeDof nm"
      unfolding wellShaped_def list_all_iff by auto
    with that(2) show ?thesis by (cases qv) simp_all
  qed
  then show "yup K \<longrightarrow>
      (\<forall>(nm, qv) \<in> set q. captured nm \<and> \<not> threeDof nm \<longrightarrow> (\<exists>v. qv = Number v))"
    by fast
qed

text \<open>For a configuration over the tree's joints (a scalar under a single-axis name, a
  triple under a three-axis name) the call returns a transform map and leaves
  \<^verbatim>\<open>getCurrentStateConfig()\<close> as it was, under either up-axis convention.\<close>

lemma forwardKinematics_restores:
  assumes "engineOn K sc" "wellShaped sc q"
  shows "\<exists>links sc'. forwardKinematics L K q A sc = (Inr links, sc') \<and>
           getCurrentStateConfig K sc' = getCurrentStateConfig K sc"
  using forwardKinematics_restores_aux[OF assms(1) wellShaped_applies(1)[OF assms(2)]
      wellShaped_applies(2)[OF assms(2)], of L A]
  by blast

text \<open>
  Claim C2. The specification says that one call to \<^verbatim>\<open>forwardKinematics\<close> leaves the
  configuration read by \<^verbatim>\<open>getCurrentStateConfig()\<close> as it was, for every configuration, an
  entry that names a joint outside the tree being ignored. For the configurations over
  the tree's joints that is lemma \<open>forwardKinematics_restores\<close>. For a configuration with
  an entry outside the tree it fails: \<^verbatim>\<open>setConfiguration\<close> raises at that entry (the missing
  test of claim C1), the restore step \<^verbatim>\<open>setConfiguration(q_old)\<close> is never reached, and the
  entries applied before it stay in the tree. On the engine the constructor returns over
  \<open>bearTree\<close>, the configuration \<^verbatim>\<open>{RJoint_Back_Lower_Z_L: 1, RJoint_Ghost_Z_L: 2}\<close> makes
  the call raise a \<^verbatim>\<open>TypeError\<close>, and the configuration read before the call has
  \<^verbatim>\<open>RJoint_Back_Lower_Z_L: 0\<close> where the one read after it has \<^verbatim>\<open>RJoint_Back_Lower_Z_L: 1\<close>.
\<close>

theorem forwardKinematics_unknown_joint_not_restored:
  "Kinematics_new originLib bearTree False = (Inr bearEngine, bearTree) \<and>
   getCurrentStateConfig bearEngine bearTree =
     [(''RJoint_Back_Lower_Z_L'', Number (Fin 0)), (''RJoint_Back_Lower_Z_R'', Number (Fin 0)),
      (''RJoint_Back_Upper_XYZ_L'', Rot3Angles (Fin 0) (Fin 0) (Fin 0)),
      (''RJoint_Front_Lower_Z_L'', Number (Fin 0)), (''RJoint_Front_Lower_Z_R'', Number (Fin 0))] \<and>
   fst (forwardKinematics originLib bearEngine
          [(''RJoint_Back_Lower_Z_L'', Number (Fin 1)), (''RJoint_Ghost_Z_L'', Number (Fin 2))]
          identity4 bearTree) = Inl TypeError \<and>
   getCurrentStateConfig bearEngine
     (snd (forwardKinematics originLib bearEngine
             [(''RJoint_Back_Lower_Z_L'', Number (Fin 1)), (''RJoint_Ghost_Z_L'', Number (Fin 2))]
             identity4 bearTree)) =
     [(''RJoint_Back_Lower_Z_L'', Number (Fin 1)), (''RJoint_Back_Lower_Z_R'', Number (Fin 0)),
      (''RJoint_Back_Upper_XYZ_L'', Rot3Angles (Fin 0) (Fin 0) (Fin 0)),
      (''RJoint_Front_Lower_Z_L'', Number (Fin 0)), (''RJoint_Front_Lower_Z_R'', Number (Fin 0))]"
proof -
  have s: "setConfiguration originLib bearEngine
          [(''RJoint_Back_Lower_Z_L'', Number (Fin 1)), (''RJoint_Ghost_Z_L'', Number (Fin 2))]
          bearTree =
        (Inl TypeError,
         [node ''Bear'' None,
          node ''RJoint_Back_Upper_XYZ_L'' (Some 0),
          (node ''RJoint_Back_Lower_Z_L'' (Some 1))\<lparr> rotation := Euler (Fin 0) (Fin 0) (Fin 1) \<rparr>,
          node ''Effector_Back_L'' (Some 2),
          node ''RJoint_Back_Lower_Z_R'' (Some 0),
          node ''RJoint_Front_Lower_Z_L'' (Some 0),
          node ''RJoint_Front_Lower_Z_R'' (Some 0)])"
    by (simp add: bearEngine_fields bearTree_def newRotation_def updateMatrixWorld_origin node_def)
  have f: "forwardKinematics originLib bearEngine
          [(''RJoint_Back_Lower_Z_L'', Number (Fin 1)), (''RJoint_Ghost_Z_L'', Number (Fin 2))]
          identity4 bearTree =
        (Inl TypeError,
         [node ''Bear'' None,
          node ''RJoint_Back_Upper_XYZ_L'' (Some 0),
          (node ''RJoint_Back_Lower_Z_L'' (Some 1))\<lparr> rotation := Euler (Fin 0) (Fin 0) (Fin 1) \<rparr>,
          node ''Effector_Back_L'' (Some 2),
          node ''RJoint_Back_Lower_Z_R'' (Some 0),
          node ''RJoint_Front_Lower_Z_L'' (Some 0),
          node ''RJoint_Front_Lower_Z_R'' (Some 0)])"
    unfolding forwardKinematics_def Let_def s by simp
  show ?thesis
    unfolding f
    by (simp add: bearEngine_constructed bear_config)
       (simp add: getCurrentStateConfig_def bearEngine_fields node_def startsWith_def)
qed

section \<open>The configuration index\<close>

lemma forwardKinematics_keeps:
  "map name (snd (forwardKinematics L K q A sc)) = map name sc"
proof -
  obtain r1 sc1 where 1: "setConfiguration L K q sc = (r1, sc1)"
    by (cases "setConfiguration L K q sc")
  obtain r2 sc2 where 2: "setConfiguration L K (getCurrentStateConfig K sc) sc1 = (r2, sc2)"
    by (cases "setConfiguration L K (getCurrentStateConfig K sc) sc1")
  have n1: "map name sc1 = map name sc"
    using setConfiguration_keeps[of L K q sc] 1 by simp
  have n2: "map name sc2 = map name sc"
    using setConfiguration_keeps[of L K "getCurrentStateConfig K sc" sc1] 2 n1 by simp
  show ?thesis
    using n1 n2 by (cases r1; cases r2) (simp_all add: forwardKinematics_def Let_def 1 2)
qed

text \<open>
  Claim C4. For an engine over a tree, the keys of the name map are the tree's names in
  ascending order without repetition; the slot-to-label array lists, key by key in that
  order, the three labels \<^verbatim>\<open>/x\<close>, \<^verbatim>\<open>/y\<close>, \<^verbatim>\<open>/z\<close> of a name with \<^verbatim>\<open>_XYZ_\<close> and the one label of
  a name with \<^verbatim>\<open>_Z_\<close> only; no label occurs twice; the label-to-slot map sends a label to
  \<open>i\<close> exactly when slot \<open>i\<close> carries that label; and the length is three per
  three-axis name plus one per single-axis name. The index is a field of the engine
  value, which every operation of the model takes as an argument and none returns
  changed (\<open>engineOn_new\<close>: the rest of the constructor leaves it as computed); and after
  \<^verbatim>\<open>setConfiguration\<close> or \<^verbatim>\<open>forwardKinematics\<close>, whether they return or raise, the same engine
  value is still the engine over the tree they leave.
\<close>

theorem configuration_index_bijection:
  assumes "engineOn K sc"
  shows "sorted (map fst (mapK K)) \<and> distinct (map fst (mapK K)) \<and>
         set (map fst (mapK K)) = set (map name sc) \<and>
         qConfigIndexReversed K = concat (map dofLabels (map fst (mapK K))) \<and>
         distinct (qConfigIndexReversed K) \<and>
         (\<forall>l i. map_of (qConfigIndex K) l = Some i \<longleftrightarrow>
                i < qConfigLength K \<and> qConfigIndexReversed K ! i = l) \<and>
         qConfigLength K =
           3 * length (filter threeDof (map fst (mapK K))) +
           length (filter oneDof (map fst (mapK K))) \<and>
         engineOn K (snd (setConfiguration L K q sc)) \<and>
         engineOn K (snd (forwardKinematics L K q A sc))"
proof -
  have "engineOn K (snd (setConfiguration L K q sc))"
    using setConfiguration_keeps[of L K q sc] by (intro engineOn_names[OF assms]) simp
  moreover have "engineOn K (snd (forwardKinematics L K q A sc))"
    by (intro engineOn_names[OF assms] forwardKinematics_keeps)
  ultimately show ?thesis
    using engine_keys[OF assms] engine_index[OF assms] length_labels[of "map fst (mapK K)"]
    by (simp add: okIndex_def del: map_map)
qed

theorem configuration_index_bijection_witness:
  "engineOn legEngine legTree \<and>
   map fst (mapK legEngine) =
     [''Body'', ''Effector_Back_L'', ''RJoint_Hip_XYZ_L'', ''RJoint_Knee_Z_L''] \<and>
   qConfigIndexReversed legEngine =
     [''RJoint_Hip_XYZ_L/x'', ''RJoint_Hip_XYZ_L/y'', ''RJoint_Hip_XYZ_L/z'', ''RJoint_Knee_Z_L''] \<and>
   map_of (qConfigIndex legEngine) ''RJoint_Hip_XYZ_L/y'' = Some 1 \<and>
   qConfigLength legEngine = 4 \<and>
   engineOn legEngine
     (snd (setConfiguration originLib legEngine [(''RJoint_Knee_Z_L'', Number (Fin 1))] legTree))"
proof -
  have h: "engineOn legEngine legTree" by (simp add: engineOn_def example_defs)
  have k: "map fst (mapK legEngine) =
     [''Body'', ''Effector_Back_L'', ''RJoint_Hip_XYZ_L'', ''RJoint_Knee_Z_L'']"
    by (simp add: example_defs)
  from configuration_index_bijection[OF h, of originLib
      "[(''RJoint_Knee_Z_L'', Number (Fin 1))]" identity4]
  show ?thesis
    using h by (simp add: k dofLabels_def threeDof_def oneDof_def startsWith_def)
qed

section \<open>The constructor\<close>

lemma addToEntry_keys: "fst ` set (addToEntry k c q) = insert k (fst ` set q)"
  by (simp add: addToEntry_def dom_update)

lemma addToEntry_map_of:
  "map_of (addToEntry k c q) nm =
     (if nm = k then Some (Number (jsadd (numberAt q k) (Fin c))) else map_of q nm)"
  by (simp add: addToEntry_def update_conv')

lemma numberAt_addToEntry: "k' \<noteq> k \<Longrightarrow> numberAt (addToEntry k c q) k' = numberAt q k'"
  by (simp add: numberAt_def addToEntry_map_of)

lemma homeConfig_keys:
  "fst ` set (homeConfig K sc) = set biasedJoints \<union> fst ` set (getCurrentStateConfig K sc)"
  by (auto simp: homeConfig_def addToEntry_keys biasedJoints_def)

lemma homeConfig_map_of:
  "map_of (homeConfig K sc) nm =
     (if nm = ''RJoint_Back_Lower_Z_L'' then
        Some (Number (jsadd (numberAt (getCurrentStateConfig K sc) nm) (Fin (pi / 4))))
      else if nm = ''RJoint_Back_Lower_Z_R'' then
        Some (Number (jsadd (numberAt (getCurrentStateConfig K sc) nm) (Fin (- (pi / 4)))))
      else if nm = ''RJoint_Front_Lower_Z_L'' then
        Some (Number (jsadd (numberAt (getCurrentStateConfig K sc) nm) (Fin (- (pi / 8)))))
      else if nm = ''RJoint_Front_Lower_Z_R'' then
        Some (Number (jsadd (numberAt (getCurrentStateConfig K sc) nm) (Fin (pi / 8))))
      else map_of (getCurrentStateConfig K sc) nm)"
  by (simp add: homeConfig_def addToEntry_map_of numberAt_addToEntry)

lemma forwardKinematics_raises:
  assumes "\<exists>k \<in> fst ` set q. map_of (mapK K) k = None"
  shows "fst (forwardKinematics L K q A sc) = Inl TypeError"
proof -
  from setConfiguration_raises[OF assms, of L sc]
  obtain sc1 where "setConfiguration L K q sc = (Inl TypeError, sc1)"
    by (cases "setConfiguration L K q sc") auto
  then show ?thesis by (simp add: forwardKinematics_def Let_def)
qed

lemma addToEntry_distinct: "distinct (map fst q) \<Longrightarrow> distinct (map fst (addToEntry k c q))"
  by (simp add: addToEntry_def distinct_update)

lemma homeConfig_distinct: "distinct (map fst (homeConfig K sc))"
  by (simp add: homeConfig_def addToEntry_distinct getCurrentStateConfig_distinct)

lemma Kinematics_new_succeeds:
  assumes "set biasedJoints \<subseteq> set (map name sc)"
  shows "\<exists>K. fst (Kinematics_new L sc yp) = Inr K"
proof -
  let ?K = "Kinematics_init sc yp"
  let ?K' = "?K\<lparr> homePositionConfig := homeConfig ?K sc \<rparr>"
  have eng0: "engineOn ?K sc" by (rule engineOn_init)
  have eng: "engineOn ?K' sc" using eng0 by (simp add: engineOn_def)
  have cfg: "getCurrentStateConfig ?K' sc = getCurrentStateConfig ?K sc"
    by (simp add: getCurrentStateConfig_def)
  have keys: "\<forall>k \<in> fst ` set (homeConfig ?K sc). k \<in> set (map name sc)"
    using assms getCurrentStateConfig_keys_in_tree[OF eng0]
    unfolding homeConfig_keys by blast
  have shape: "yup ?K' \<longrightarrow>
      (\<forall>(nm, qv) \<in> set (homeConfig ?K sc).
          captured nm \<and> \<not> threeDof nm \<longrightarrow> (\<exists>v. qv = Number v))"
  proof (intro impI ballI)
    fix x assume x: "x \<in> set (homeConfig ?K sc)"
    obtain nm qv where nq: "x = (nm, qv)" by (cases x)
    have "\<exists>v. qv = Number v" if c: "captured nm" "\<not> threeDof nm"
    proof -
      from x nq homeConfig_distinct[of ?K sc] have m: "map_of (homeConfig ?K sc) nm = Some qv"
        by (intro map_of_is_SomeI) simp_all
      show ?thesis
      proof (cases "nm \<in> set biasedJoints")
        case True
        with m show ?thesis by (auto simp: homeConfig_map_of biasedJoints_def split: if_splits)
      next
        case False
        with m have "map_of (getCurrentStateConfig ?K sc) nm = Some qv"
          by (simp add: homeConfig_map_of biasedJoints_def split: if_splits)
        with c show ?thesis
          by (auto simp: getCurrentStateConfig_map_of[OF eng0] reading_def
              split: option.splits if_splits)
      qed
    qed
    with nq show "case x of (nm, qv) \<Rightarrow>
        captured nm \<and> \<not> threeDof nm \<longrightarrow> (\<exists>v. qv = Number v)" by simp
  qed
  from forwardKinematics_restores_aux[OF eng keys shape, of L identity4]
  obtain links sc' where
    "forwardKinematics L ?K' (homeConfig ?K sc) identity4 sc = (Inr links, sc')" by blast
  then show ?thesis by (simp add: Kinematics_new_def Let_def)
qed

text \<open>
  Claim C9. The home configuration is the captured configuration with the four biased
  entries rewritten (created, with value NaN, where the captured configuration has none)
  and every other entry as captured; and when one of the four names is not a node of the
  tree, the forward-kinematics evaluation that ends the constructor raises a
  \<^verbatim>\<open>TypeError\<close>: construction returns an engine exactly for the trees that have all four.
\<close>

theorem constructor_needs_biased_joints:
  "(\<forall>nm. map_of (homeConfig (Kinematics_init sc yp) sc) nm =
      (if nm = ''RJoint_Back_Lower_Z_L'' then
         Some (Number (jsadd (numberAt (getCurrentStateConfig (Kinematics_init sc yp) sc) nm)
                        (Fin (pi / 4))))
       else if nm = ''RJoint_Back_Lower_Z_R'' then
         Some (Number (jsadd (numberAt (getCurrentStateConfig (Kinematics_init sc yp) sc) nm)
                        (Fin (- (pi / 4)))))
       else if nm = ''RJoint_Front_Lower_Z_L'' then
         Some (Number (jsadd (numberAt (getCurrentStateConfig (Kinematics_init sc yp) sc) nm)
                        (Fin (- (pi / 8)))))
       else if nm = ''RJoint_Front_Lower_Z_R'' then
         Some (Number (jsadd (numberAt (getCurrentStateConfig (Kinematics_init sc yp) sc) nm)
                        (Fin (pi / 8))))
       else map_of (getCurrentStateConfig (Kinematics_init sc yp) sc) nm)) \<and>
   (\<not> set biasedJoints \<subseteq> set (map name sc) \<longrightarrow>
      fst (Kinematics_new L sc yp) = Inl TypeError) \<and>
   ((\<exists>K. fst (Kinematics_new L sc yp) = Inr K) = (set biasedJoints \<subseteq> set (map name sc)))"
proof -
  let ?K = "Kinematics_init sc yp"
  let ?K' = "?K\<lparr> homePositionConfig := homeConfig ?K sc \<rparr>"
  have eng: "engineOn ?K' sc" using engineOn_init[of sc yp] by (simp add: engineOn_def)
  have raise: "fst (Kinematics_new L sc yp) = Inl TypeError"
    if "\<not> set biasedJoints \<subseteq> set (map name sc)"
  proof -
    from that obtain k where k: "k \<in> set biasedJoints" "k \<notin> set (map name sc)" by blast
    then have "k \<in> fst ` set (homeConfig ?K sc)" by (simp add: homeConfig_keys)
    moreover from k(2) engine_map_dom[OF eng, of k] have "map_of (mapK ?K') k = None" by simp
    ultimately have "\<exists>k \<in> fst ` set (homeConfig ?K sc). map_of (mapK ?K') k = None" by blast
    from forwardKinematics_raises[OF this, of L identity4 sc]
    obtain sc1 where "forwardKinematics L ?K' (homeConfig ?K sc) identity4 sc = (Inl TypeError, sc1)"
      by (cases "forwardKinematics L ?K' (homeConfig ?K sc) identity4 sc") auto
    then show ?thesis by (simp add: Kinematics_new_def Let_def)
  qed
  have "(\<exists>K. fst (Kinematics_new L sc yp) = Inr K) = (set biasedJoints \<subseteq> set (map name sc))"
    using raise Kinematics_new_succeeds[of sc L yp] by (metis Inl_Inr_False)
  with raise homeConfig_map_of[of ?K sc] show ?thesis by blast
qed

theorem constructor_needs_biased_joints_witness:
  "\<not> set biasedJoints \<subseteq> set (map name legTree) \<and>
   fst (Kinematics_new originLib legTree False) = Inl TypeError \<and>
   set biasedJoints \<subseteq> set (map name bearTree) \<and>
   (\<exists>K. fst (Kinematics_new originLib bearTree False) = Inr K)"
proof -
  have n: "\<not> set biasedJoints \<subseteq> set (map name legTree)"
    by (simp add: biasedJoints_def legTree_def node_def)
  from constructor_needs_biased_joints[of legTree False originLib] n
  have 1: "fst (Kinematics_new originLib legTree False) = Inl TypeError" by blast
  have 3: "set biasedJoints \<subseteq> set (map name bearTree)"
    by (simp add: biasedJoints_def bearTree_def node_def)
  from constructor_needs_biased_joints[of bearTree False originLib] 3
  have 2: "\<exists>K. fst (Kinematics_new originLib bearTree False) = Inr K" by blast
  from n 1 2 3 show ?thesis by blast
qed

section \<open>Chains\<close>

declare ancestorsOf.simps [simp del]
declare climb.simps [simp del]

lemma wfTree_parent:
  assumes "wfTree sc" "j < length sc" "0 < j"
  shows "\<exists>p. parent (sc ! j) = Some p \<and> p < j"
proof -
  from assms have "j \<in> set [1 ..< length sc]" by simp
  with assms(1) have "case parent (sc ! j) of Some p \<Rightarrow> p < j | None \<Rightarrow> False"
    unfolding wfTree_def list_all_iff by blast
  then show ?thesis by (cases "parent (sc ! j)") simp_all
qed

lemma wfTree_root: "wfTree sc \<Longrightarrow> 0 < length sc \<and> parent (sc ! 0) = None"
  by (simp add: wfTree_def)

lemma name_root_iff:
  assumes "wfTree sc" "distinct (map name sc)" "j < length sc"
  shows "(name (sc ! j) = name (sc ! 0)) = (j = 0)"
  using assms wfTree_root[OF assms(1)] nth_eq_iff_index_eq[of "map name sc" j 0] by simp

lemma climb_inside:
  assumes "wfTree sc" "distinct (map name sc)"
  shows "p < length sc \<Longrightarrow>
     climb sc (name (sc ! 0)) outer p chain =
       chain @ filter (startsWith ''RJoint_'')
                 (map (\<lambda>j. name (sc ! j)) (filter (\<lambda>j. 0 < j) (p # ancestorsOf sc p)))"
proof (induction p arbitrary: chain rule: less_induct)
  case (less p)
  show ?case
  proof (cases "p = 0")
    case True
    with wfTree_root[OF assms(1)] have "ancestorsOf sc 0 = []" by (simp add: ancestorsOf.simps[of sc 0])
    with True show ?thesis by (subst climb.simps) simp
  next
    case False
    from wfTree_parent[OF assms(1) less.prems] False
    obtain p' where p': "parent (sc ! p) = Some p'" "p' < p" by auto
    from False name_root_iff[OF assms less.prems] have ne: "name (sc ! p) \<noteq> name (sc ! 0)" by simp
    have a: "ancestorsOf sc p = p' # ancestorsOf sc p'" using p' by (simp add: ancestorsOf.simps[of sc p])
    from p' less.prems have lt: "p' < length sc" by simp
    show ?thesis
      using False ne p' less.IH[OF p'(2) lt]
      by (subst climb.simps) (simp add: a Let_def)
  qed
qed

lemma climbOuter_eq:
  "climbOuter rn outer chain =
     chain @ filter (startsWith ''RJoint_'') (takeWhile (\<lambda>nm. nm \<noteq> rn) outer)"
  by (induction outer arbitrary: chain) simp_all

lemma ancestorsOf_less: "j \<in> set (ancestorsOf sc i) \<Longrightarrow> j < i"
proof (induction i arbitrary: j rule: less_induct)
  case (less i)
  show ?case
  proof (cases "parent (sc ! i)")
    case None with less.prems show ?thesis by (simp add: ancestorsOf.simps[of sc i])
  next
    case (Some p)
    show ?thesis
    proof (cases "p < i")
      case True
      with Some less.prems have "j = p \<or> j \<in> set (ancestorsOf sc p)"
        by (simp add: ancestorsOf.simps[of sc i])
      then show ?thesis
      proof
        assume "j = p" with True show ?thesis by simp
      next
        assume "j \<in> set (ancestorsOf sc p)"
        then have "j < p" by (rule less.IH[OF True])
        with True show ?thesis by simp
      qed
    next
      case False with Some less.prems show ?thesis by (simp add: ancestorsOf.simps[of sc i])
    qed
  qed
qed

lemma ancestorsOf_distinct: "distinct (ancestorsOf sc i)"
proof (induction i rule: less_induct)
  case (less i)
  show ?case
  proof (cases "parent (sc ! i)")
    case None then show ?thesis by (simp add: ancestorsOf.simps[of sc i])
  next
    case (Some p)
    show ?thesis
    proof (cases "p < i")
      case True
      have "p \<notin> set (ancestorsOf sc p)" using ancestorsOf_less[of p sc p] by auto
      with True Some less.IH[OF True] show ?thesis by (simp add: ancestorsOf.simps[of sc i])
    next
      case False with Some show ?thesis by (simp add: ancestorsOf.simps[of sc i])
    qed
  qed
qed

lemma chainSpec_distinct:
  assumes "distinct (map name sc)" "i < length sc"
  shows "distinct (chainSpec sc i)"
proof -
  let ?js = "filter (\<lambda>j. 0 < j) (ancestorsOf sc i)"
  have lt: "\<forall>j \<in> set ?js. j < i" using ancestorsOf_less by auto
  have inj: "inj_on (\<lambda>j. name (sc ! j)) (set (i # ?js))"
  proof (rule inj_onI)
    fix a b assume ab: "a \<in> set (i # ?js)" "b \<in> set (i # ?js)" "name (sc ! a) = name (sc ! b)"
    then have "a < length sc" "b < length sc" using lt assms(2) by auto
    with ab(3) assms(1) show "a = b" using nth_eq_iff_index_eq[of "map name sc" a b] by simp
  qed
  have "distinct (i # ?js)" using lt ancestorsOf_distinct[of sc i] by auto
  with inj have d: "distinct (map (\<lambda>j. name (sc ! j)) (i # ?js))" by (simp only: distinct_map)
  then have "distinct (name (sc ! i) # filter (startsWith ''RJoint_'') (map (\<lambda>j. name (sc ! j)) ?js))"
    by auto
  then show ?thesis by (auto simp: chainSpec_def)
qed

text \<open>In a well-formed tree of uniquely named nodes: for a node other than the root,
  \<^verbatim>\<open>getChain\<close> returns the node's name preceded by the names, base first, of its strict
  ancestors below the root that start with \<^verbatim>\<open>RJoint_\<close>, each once; for a name that is not
  in the tree it returns that name alone. For the root's own name the walk starts at the
  root's parent and runs through the host's scene graph, up to a node named like the
  root.\<close>

lemma getChain_ancestors:
  assumes "engineOn K sc" "wfTree sc" "distinct (map name sc)"
  shows "(\<forall>i. 0 < i \<and> i < length sc \<longrightarrow>
            getChain K outer sc (name (sc ! i)) = chainSpec sc i \<and>
            distinct (getChain K outer sc (name (sc ! i)))) \<and>
         getChain K outer sc (name (sc ! 0)) =
           rev (filter (startsWith ''RJoint_'')
                  (takeWhile (\<lambda>nm. nm \<noteq> name (sc ! 0)) outer)) @ [name (sc ! 0)] \<and>
         (\<forall>e. e \<notin> set (map name sc) \<longrightarrow> getChain K outer sc e = [e])"
proof -
  have r: "rootK K = 0" using assms(1) by (simp add: engineOn_def)
  have 1: "getChain K outer sc (name (sc ! i)) = chainSpec sc i \<and>
           distinct (getChain K outer sc (name (sc ! i)))" if i: "0 < i" "i < length sc" for i
  proof -
    from wfTree_parent[OF assms(2) i(2) i(1)]
    obtain p where p: "parent (sc ! i) = Some p" "p < i" by auto
    have m: "map_of (mapK K) (name (sc ! i)) = Some i"
      by (rule engine_map_node[OF assms(1,3) i(2)])
    have a: "ancestorsOf sc i = p # ancestorsOf sc p" using p by (simp add: ancestorsOf.simps[of sc i])
    from p i have "p < length sc" by simp
    from climb_inside[OF assms(2,3) this, of outer "[name (sc ! i)]"]
    have "getChain K outer sc (name (sc ! i)) = chainSpec sc i"
      using p by (simp add: getChain_def m r chainSpec_def a)
    with chainSpec_distinct[OF assms(3) i(2)] show ?thesis by simp
  qed
  have 2: "getChain K outer sc (name (sc ! 0)) =
           rev (filter (startsWith ''RJoint_'')
                  (takeWhile (\<lambda>nm. nm \<noteq> name (sc ! 0)) outer)) @ [name (sc ! 0)]"
  proof -
    from wfTree_root[OF assms(2)] have z: "0 < length sc" "parent (sc ! 0) = None" by simp_all
    have m: "map_of (mapK K) (name (sc ! 0)) = Some 0"
      by (rule engine_map_node[OF assms(1,3) z(1)])
    show ?thesis by (simp add: getChain_def m r z(2) climbOuter_eq)
  qed
  have 3: "getChain K outer sc e = [e]" if "e \<notin> set (map name sc)" for e
  proof -
    from that engine_map_dom[OF assms(1), of e] have "map_of (mapK K) e = None" by simp
    then show ?thesis by (simp add: getChain_def)
  qed
  from 1 2 3 show ?thesis by blast
qed

text \<open>
  Claim C7. The specification has the walk stop below the tree root for every effector
  name of the tree, so that the chain of the root's own name is that name alone
  (\<open>chainSpec\<close> at the root). For the nodes other than the root, and for the names that
  are not in the tree, that is lemma \<open>getChain_ancestors\<close>. For the root's own name it
  fails: the walk starts at \<^verbatim>\<open>this.map[endEffector].parent\<close>, which for the root is already
  above the node the stop test \<^verbatim>\<open>current.name !== this.root.name\<close> looks for, and it
  collects the \<^verbatim>\<open>RJoint_\<close> names of the host's scene graph. On the engine the constructor
  returns over \<open>bearTree\<close>, with the root \<^verbatim>\<open>Bear\<close> under a host node \<^verbatim>\<open>RJoint_Rig\<close> under
  the scene, the chain of \<^verbatim>\<open>Bear\<close> is \<^verbatim>\<open>[RJoint_Rig, Bear]\<close>.
\<close>

theorem getChain_of_root_collects_outer_joints:
  "Kinematics_new originLib bearTree False = (Inr bearEngine, bearTree) \<and>
   chainSpec bearTree 0 = [''Bear''] \<and>
   getChain bearEngine [''RJoint_Rig'', ''Scene''] bearTree ''Bear'' = [''RJoint_Rig'', ''Bear'']"
proof -
  have "ancestorsOf bearTree 0 = []"
    by (subst ancestorsOf.simps) (simp add: bearTree_def node_def)
  then have "chainSpec bearTree 0 = [''Bear'']"
    by (simp add: chainSpec_def) (simp add: bearTree_def node_def)
  moreover have "getChain bearEngine [''RJoint_Rig'', ''Scene''] bearTree ''Bear'' =
      [''RJoint_Rig'', ''Bear'']"
    by (simp add: getChain_def bearEngine_fields bearTree_def node_def startsWith_def)
  ultimately show ?thesis by (simp add: bearEngine_constructed)
qed

section \<open>Inverse kinematics\<close>

lemma forwardKinematicsRec_keys:
  "fst ` set (forwardKinematicsRec sc links) = fst ` set links \<union> set (map name sc)"
  unfolding forwardKinematicsRec_def
  by (induction sc arbitrary: links) (auto simp: dom_update)

lemma entries_keys:
  "fst ` set (concat (map (entryOf val) ks)) \<subseteq> set ks"
  by (auto simp: entryOf_def split: if_splits)

lemma entries_shape:
  "(nm, qv) \<in> set (concat (map (entryOf val) ks)) \<Longrightarrow> \<not> threeDof nm \<Longrightarrow> \<exists>v. qv = Number v"
  by (auto simp: entryOf_def split: if_splits)

lemma plainNames_names: "map name sc = map name sc0 \<Longrightarrow> plainNames sc = plainNames sc0"
  by (simp add: plainNames_def)

text \<open>Forward kinematics of a configuration read from a vector never raises.\<close>

lemma forwardKinematics_of_vector:
  assumes eng: "engineOn K sc0" and plain: "plainNames sc0"
    and names: "map name sc = map name sc0" and len: "length vec = qConfigLength K"
  shows "\<exists>q fwd sc'. vectorToConfig K vec = Inr q \<and>
           forwardKinematics L K q A sc = (Inr fwd, sc') \<and>
           fst ` set fwd = set (map name sc0) \<and> map name sc' = map name sc0"
proof -
  let ?q = "concat (map (entryOf (\<lambda>l. vec ! the (map_of (qConfigIndex K) l))) (map fst (mapK K)))"
  have v: "vectorToConfig K vec = Inr ?q" by (rule vectorToConfig_total[OF eng plain len])
  have eng': "engineOn K sc" by (rule engineOn_names[OF eng names])
  have keys: "\<forall>k \<in> fst ` set ?q. k \<in> set (map name sc)"
    using entries_keys[of "\<lambda>l. vec ! the (map_of (qConfigIndex K) l)" "map fst (mapK K)"]
      engine_keys(3)[OF eng'] by blast
  have shape: "yup K \<longrightarrow>
      (\<forall>(nm, qv) \<in> set ?q. captured nm \<and> \<not> threeDof nm \<longrightarrow> (\<exists>v. qv = Number v))"
    using entries_shape by fast
  from forwardKinematics_restores_aux[OF eng' keys shape, of L A]
  obtain sc' where fk: "forwardKinematics L K ?q A sc =
      (Inr (forwardKinematicsRec (snd (setConfiguration L K ?q sc)) []), sc')"
    and n': "map name sc' = map name sc" by blast
  have "fst ` set (forwardKinematicsRec (snd (setConfiguration L K ?q sc)) []) =
        set (map name sc0)"
    using setConfiguration_keeps[of L K ?q sc] names by (simp add: forwardKinematicsRec_keys)
  with v fk n' names show ?thesis by metis
qed

lemma positionOf_ok: "nm \<in> fst ` set fwd \<Longrightarrow> \<exists>p. positionOf fwd nm = Inr p"
  by (cases "map_of fwd nm") (auto simp: positionOf_def map_of_eq_None_iff)

text \<open>A label of the index determines its joint.\<close>

lemma indexed_joint_in_tree:
  assumes eng: "engineOn K sc0"
    and i: "map_of (qConfigIndex K)
              (if includesStr ''_XYZ_'' jointName then jointName @ ''/'' @ dof else jointName) = Some i"
    and dof: "dof \<in> {''x'', ''y'', ''z''}"
  shows "jointName \<in> set (map name sc0) \<and> i < qConfigLength K"
proof -
  let ?l = "if includesStr ''_XYZ_'' jointName then jointName @ ''/'' @ dof else jointName"
  note ix = engine_index[OF eng]
  from ix(3) i have il: "i < length (qConfigIndexReversed K)" "qConfigIndexReversed K ! i = ?l"
    by (simp_all add: okIndex_def)
  then have "?l \<in> set (qConfigIndexReversed K)" by (metis nth_mem)
  then obtain k where k: "k \<in> set (map fst (mapK K))" "?l \<in> set (dofLabels k)"
    unfolding ix(1) by auto
  have "jointName = k"
  proof (cases "threeDof jointName")
    case True
    with dof have "?l \<in> set (dofLabels jointName)"
      by (auto simp: dofLabels_three threeDof_def)
    with k(2) show ?thesis by (rule dofLabels_joint[symmetric, OF _ _])
  next
    case False
    then have l: "?l = jointName" by (simp add: threeDof_def)
    show ?thesis
    proof (cases "threeDof k")
      case True
      with k(2) l have "jointName \<in> {k @ ''/x'', k @ ''/y'', k @ ''/z''}"
        by (simp add: dofLabels_three)
      with True threeDof_append[of k] have "threeDof jointName" by auto
      with False show ?thesis by simp
    next
      case F: False
      with k(2) l show ?thesis by (auto simp: dofLabels_def split: if_splits)
    qed
  qed
  with k(1) engine_keys(3)[OF eng] il(1) ix(4) show ?thesis by simp
qed

lemma store_length: "i < length xs \<Longrightarrow> length (store xs i v) = length xs"
  by (simp add: store_def)

lemma ccdStep_ok:
  assumes eng: "engineOn K sc0" and plain: "plainNames sc0" and eff: "joint \<in> set (map name sc0)"
    and inv: "ikInv K sc0 st sc" and dof: "dof \<in> {''x'', ''y'', ''z''}"
  shows "\<exists>st' sc'. ccdStep L K joint target A alpha jointName dof st sc = (Inr st', sc') \<and>
           ikInv K sc0 st' sc'"
proof -
  obtain vec fwd dErr where st: "st = (vec, fwd, dErr)" by (cases st)
  from inv st have len: "length vec = qConfigLength K"
    and fk: "fst ` set fwd = set (map name sc0)" and nm: "map name sc = map name sc0"
    by (simp_all add: ikInv_def)
  let ?l = "if includesStr ''_XYZ_'' jointName then jointName @ ''/'' @ dof else jointName"
  show ?thesis
  proof (cases "map_of (qConfigIndex K) ?l")
    case None
    then show ?thesis using inv by (simp add: ccdStep_def st)
  next
    case (Some i)
    from indexed_joint_in_tree[OF eng Some dof]
    have jn: "jointName \<in> set (map name sc0)" and i: "i < qConfigLength K" by simp_all
    from jn fk obtain matrix where mx: "map_of fwd jointName = Some matrix"
      by (metis map_of_eq_None_iff not_Some_eq)
    from eff fk positionOf_ok[of joint fwd] obtain p_end where pe: "positionOf fwd joint = Inr p_end"
      by auto
    show ?thesis
    proof (cases "ccdAngle L dof matrix p_end target")
      case None
      then show ?thesis using inv Some mx pe by (simp add: ccdStep_def st)
    next
      case (Some theta)
      let ?vec = "store vec i (jsadd (elemAt vec i) (jsmul alpha theta))"
      have len': "length ?vec = qConfigLength K" using i len by (simp add: store_length)
      from forwardKinematics_of_vector[OF eng plain nm len', of L A]
      obtain q' fwd' sc' where q': "vectorToConfig K ?vec = Inr q'"
        and fk': "forwardKinematics L K q' A sc = (Inr fwd', sc')"
        and keys': "fst ` set fwd' = set (map name sc0)" and nm': "map name sc' = map name sc0"
        by blast
      from eff keys' positionOf_ok[of joint fwd'] obtain p' where p': "positionOf fwd' joint = Inr p'"
        by auto
      have "ccdStep L K joint target A alpha jointName dof st sc =
              (Inr (?vec, fwd', subVectors L target p'), sc')"
        using \<open>map_of (qConfigIndex K) ?l = Some i\<close> mx pe Some q' fk' p'
        by (simp add: ccdStep_def st Let_def)
      moreover have "ikInv K sc0 (?vec, fwd', subVectors L target p') sc'"
        using len' keys' nm' by (simp add: ikInv_def)
      ultimately show ?thesis by blast
    qed
  qed
qed

lemma dofLoop_ok:
  assumes eng: "engineOn K sc0" and plain: "plainNames sc0" and eff: "joint \<in> set (map name sc0)"
  shows "ikInv K sc0 st sc \<Longrightarrow> set dofs \<subseteq> {''x'', ''y'', ''z''} \<Longrightarrow>
     \<exists>st' sc'. dofLoop L K joint target A alpha jointName dofs st sc = (Inr st', sc') \<and>
           ikInv K sc0 st' sc'"
proof (induction dofs arbitrary: st sc)
  case Nil then show ?case by simp
next
  case (Cons dof dofs)
  from Cons.prems(2) have d: "dof \<in> {''x'', ''y'', ''z''}" "set dofs \<subseteq> {''x'', ''y'', ''z''}"
    by simp_all
  from ccdStep_ok[OF eng plain eff Cons.prems(1) d(1), of L target A alpha jointName]
  obtain st1 sc1 where 1: "ccdStep L K joint target A alpha jointName dof st sc = (Inr st1, sc1)"
    "ikInv K sc0 st1 sc1" by blast
  from Cons.IH[OF 1(2) d(2)] 1(1) show ?case by simp
qed

lemma sweep_ok:
  assumes eng: "engineOn K sc0" and plain: "plainNames sc0" and eff: "joint \<in> set (map name sc0)"
  shows "ikInv K sc0 st sc \<Longrightarrow>
     \<exists>st' sc'. sweep L K joint target A alpha jointNames st sc = (Inr st', sc') \<and>
           ikInv K sc0 st' sc'"
proof (induction jointNames arbitrary: st sc)
  case Nil then show ?case by simp
next
  case (Cons jointName jointNames)
  have "set (if includesStr ''_XYZ_'' jointName then [''x'', ''y'', ''z''] else [''z''])
          \<subseteq> {''x'', ''y'', ''z''}" by simp
  from dofLoop_ok[OF eng plain eff Cons.prems this, of L target A alpha jointName]
  obtain st1 sc1 where 1: "dofLoop L K joint target A alpha jointName
      (if includesStr ''_XYZ_'' jointName then [''x'', ''y'', ''z''] else [''z'']) st sc = (Inr st1, sc1)"
    "ikInv K sc0 st1 sc1" by blast
  from Cons.IH[OF 1(2)] 1(1) show ?case by simp
qed

text \<open>The loop is left at once when its test fails.\<close>

lemma ikWhile_exit:
  "\<not> (jsgt (lengthSq L (snd (snd st))) limit \<and> jslt (Fin (real count)) maxIterations) \<Longrightarrow>
   ikWhile L K joint target A alpha limit maxIterations chain count st sc =
     Some (Inr (count, st), sc)"
  by (subst ikWhile.simps) auto

text \<open>For an effector of the tree and \<^verbatim>\<open>maxIterations\<close> up to \<open>2^53\<close> the loop ends: the
  counter is below \<^verbatim>\<open>maxIterations\<close> before every sweep, and not below it at the end if the
  residual still exceeds the tolerance.\<close>

lemma ikWhile_ok:
  assumes eng: "engineOn K sc0" and plain: "plainNames sc0" and eff: "joint \<in> set (map name sc0)"
    and m: "m \<le> 2 ^ 53"
  shows "ikInv K sc0 st sc \<Longrightarrow>
     \<exists>count' st' sc'.
        ikWhile L K joint target A alpha limit (Fin m) chain count st sc =
          Some (Inr (count', st'), sc') \<and>
        ikInv K sc0 st' sc' \<and> count \<le> count' \<and>
        (count < count' \<longrightarrow> real count' < m + 1) \<and>
        (jsgt (lengthSq L (snd (snd st'))) limit \<longrightarrow> m \<le> real count')"
proof (induction "nat \<lceil>m\<rceil> - count" arbitrary: count st sc)
  case 0
  from "0.hyps" have "m \<le> real count" by simp
  then have "ikWhile L K joint target A alpha limit (Fin m) chain count st sc =
          Some (Inr (count, st), sc)"
    by (subst ikWhile.simps) simp
  with \<open>m \<le> real count\<close> "0.prems" show ?case
    by (intro exI[of _ count] exI[of _ st] exI[of _ sc]) simp
next
  case (Suc n)
  show ?case
  proof (cases "jsgt (lengthSq L (snd (snd st))) limit \<and> jslt (Fin (real count)) (Fin m)")
    case False
    then have r: "jsgt (lengthSq L (snd (snd st))) limit \<longrightarrow> m \<le> real count" by auto
    have "ikWhile L K joint target A alpha limit (Fin m) chain count st sc =
          Some (Inr (count, st), sc)"
      using False by (subst ikWhile.simps) auto
    with r Suc.prems show ?thesis
      by (intro exI[of _ count] exI[of _ st] exI[of _ sc]) simp
  next
    case True
    then have lt: "real count < m" by simp
    with m have "real count < 2 ^ 53" by simp
    then have "count < 2 ^ 53" by (metis of_nat_less_iff of_nat_numeral of_nat_power)
    then have inc: "increment count = count + 1" by (simp add: increment_def)
    from sweep_ok[OF eng plain eff Suc.prems, of L target A alpha "rev chain"]
    obtain st1 sc1 where 1: "sweep L K joint target A alpha (rev chain) st sc = (Inr st1, sc1)"
      "ikInv K sc0 st1 sc1" by blast
    from Suc.hyps(2) have n: "n = nat \<lceil>m\<rceil> - (count + 1)" by simp
    from Suc.hyps(1)[OF n 1(2)]
    obtain count' st' sc' where r:
      "ikWhile L K joint target A alpha limit (Fin m) chain (count + 1) st1 sc1 =
          Some (Inr (count', st'), sc')"
      "ikInv K sc0 st' sc'" "count + 1 \<le> count'"
      "count + 1 < count' \<longrightarrow> real count' < m + 1"
      "jsgt (lengthSq L (snd (snd st'))) limit \<longrightarrow> m \<le> real count'" by blast
    have "ikWhile L K joint target A alpha limit (Fin m) chain count st sc =
          Some (Inr (count', st'), sc')"
      using True 1(1) r(1) inc by (subst ikWhile.simps) simp
    moreover have "real count' < m + 1"
    proof (cases "count + 1 < count'")
      case True with r(4) show ?thesis by simp
    next
      case False
      with r(3) have "count' = count + 1" by simp
      with lt show ?thesis by simp
    qed
    ultimately show ?thesis using r
      by (intro exI[of _ count'] exI[of _ st'] exI[of _ sc']) simp
  qed
qed

lemma inverseKinematics_start:
  assumes "engineOn K sc" "plainNames sc"
  shows "\<exists>q1 fwd sc1. vectorToConfig K (configToVector K q) = Inr q1 \<and>
           forwardKinematics L K q1 A sc = (Inr fwd, sc1) \<and>
           fst ` set fwd = set (map name sc) \<and> map name sc1 = map name sc"
  using forwardKinematics_of_vector[OF assms refl configToVector_slots(1)[OF assms(1)], of q L A]
  by blast

lemma positionOf_absent: "nm \<notin> fst ` set fwd \<Longrightarrow> positionOf fwd nm = Inl TypeError"
  by (simp add: positionOf_def map_of_eq_None_iff[THEN iffD2])

lemma inverseKinematics_absent_effector:
  assumes "engineOn K sc" "plainNames sc" "joint \<notin> set (map name sc)"
  shows "\<exists>sc'. inverseKinematics L K outer q joint target A alpha limit maxIterations sc =
                 Some (Inl TypeError, sc')"
proof -
  from inverseKinematics_start[OF assms(1,2), of q L A]
  obtain q1 fwd sc1 where q1: "vectorToConfig K (configToVector K q) = Inr q1"
    and fk: "forwardKinematics L K q1 A sc = (Inr fwd, sc1)"
    and keys: "fst ` set fwd = set (map name sc)" by blast
  from assms(3) keys have "positionOf fwd joint = Inl TypeError"
    by (intro positionOf_absent) simp
  with q1 fk show ?thesis by (simp add: inverseKinematics_def Let_def)
qed

text \<open>With \<^verbatim>\<open>maxIterations\<close> a natural number up to \<open>2^53\<close> and an effector of the tree,
  the call returns; the count is at most \<^verbatim>\<open>maxIterations\<close>, and exactly \<^verbatim>\<open>maxIterations\<close>
  when the returned residual still exceeds the tolerance.\<close>

lemma inverseKinematics_returns:
  assumes "engineOn K sc" "plainNames sc" "joint \<in> set (map name sc)" "n \<le> 2 ^ 53"
  shows "\<exists>finalQ dErr count fwd sc'.
           inverseKinematics L K outer q joint target A alpha limit (Fin (real n)) sc =
             Some (Inr (finalQ, dErr, count, fwd), sc') \<and>
           count \<le> n \<and>
           (jsgt (lengthSq L dErr) limit \<longrightarrow> count = n)"
proof -
  let ?vec = "configToVector K q"
  have len: "length ?vec = qConfigLength K" by (rule configToVector_slots(1)[OF assms(1)])
  from inverseKinematics_start[OF assms(1,2), of q L A]
  obtain q1 fwd sc1 where q1: "vectorToConfig K ?vec = Inr q1"
    and fk: "forwardKinematics L K q1 A sc = (Inr fwd, sc1)"
    and keys: "fst ` set fwd = set (map name sc)" and nm: "map name sc1 = map name sc"
    by blast
  from assms(3) keys positionOf_ok[of joint fwd] obtain p where p: "positionOf fwd joint = Inr p"
    by auto
  have inv: "ikInv K sc (?vec, fwd, subVectors L target p) sc1"
    using len keys nm by (simp add: ikInv_def)
  from assms(4) have m: "real n \<le> 2 ^ 53"
    by (metis of_nat_le_iff of_nat_numeral of_nat_power)
  from ikWhile_ok[OF assms(1,2,3) m inv, of L target A alpha limit
      "getChain K outer sc1 joint" 0]
  obtain count st' sc2 where w:
    "ikWhile L K joint target A alpha limit (Fin (real n)) (getChain K outer sc1 joint) 0
       (?vec, fwd, subVectors L target p) sc1 = Some (Inr (count, st'), sc2)"
    "ikInv K sc st' sc2" "0 < count \<longrightarrow> real count < real n + 1"
    "jsgt (lengthSq L (snd (snd st'))) limit \<longrightarrow> real n \<le> real count" by blast
  obtain vec' fwd' dErr where st': "st' = (vec', fwd', dErr)" by (cases st')
  from w(2) st' have len': "length vec' = qConfigLength K" by (simp add: ikInv_def)
  from vectorToConfig_total[OF assms(1,2) len'] obtain finalQ where
    f: "vectorToConfig K vec' = Inr finalQ" by blast
  have "inverseKinematics L K outer q joint target A alpha limit (Fin (real n)) sc =
          Some (Inr (finalQ, dErr, count, fwd'), sc2)"
    using q1 fk p w(1) f by (simp add: inverseKinematics_def Let_def st')
  moreover from w(3) have "count \<le> n" by (cases "0 < count") simp_all
  moreover from w(4) st' \<open>count \<le> n\<close> have "jsgt (lengthSq L dErr) limit \<longrightarrow> count = n" by simp
  ultimately show ?thesis by blast
qed

text \<open>Above \<open>2^53\<close> the counter never reaches \<^verbatim>\<open>maxIterations\<close>: where a sweep leaves the
  working state as it is (every projection degenerate) and the residual exceeds the
  tolerance, the loop does not end.\<close>

lemma real_le_2_53: "count \<le> 2 ^ 53 \<Longrightarrow> real count \<le> 2 ^ 53"
  by (metis of_nat_le_iff of_nat_numeral of_nat_power)

lemma increment_le: "count \<le> 2 ^ 53 \<Longrightarrow> increment count \<le> 2 ^ 53"
  by (simp add: increment_def)

lemma ikWhile_no_result:
  assumes r: "ikWhile L K joint target A alpha limit maxIterations chain count st sc = Some y"
  shows "sweep L K joint target A alpha (rev chain) st sc = (Inr st, sc) \<and>
   jsgt (lengthSq L (snd (snd st))) limit \<and>
   (\<exists>m. maxIterations = Fin m \<and> 2 ^ 53 < m) \<and> count \<le> 2 ^ 53 \<longrightarrow> False"
proof (rule ikWhile.raw_induct[OF _ r, where P = "\<lambda>L K joint target A alpha limit maxIterations chain count st sc y.
   sweep L K joint target A alpha (rev chain) st sc = (Inr st, sc) \<and>
   jsgt (lengthSq L (snd (snd st))) limit \<and>
   (\<exists>m. maxIterations = Fin m \<and> 2 ^ 53 < m) \<and> count \<le> 2 ^ 53 \<longrightarrow> False"], goal_cases)
  case (1 ikWhile' L K joint target A alpha limit maxIterations chain count st sc y)
  show ?case
  proof
    assume h: "sweep L K joint target A alpha (rev chain) st sc = (Inr st, sc) \<and>
       jsgt (lengthSq L (snd (snd st))) limit \<and>
       (\<exists>m. maxIterations = Fin m \<and> 2 ^ 53 < m) \<and> count \<le> 2 ^ 53"
    then obtain m where m: "maxIterations = Fin m" "2 ^ 53 < m" by blast
    from h have cb: "count \<le> 2 ^ 53" by blast
    from real_le_2_53[OF cb] m have c: "jslt (Fin (real count)) maxIterations" by simp
    note i = increment_le[OF cb]
    from h have sw: "sweep L K joint target A alpha (rev chain) st sc = (Inr st, sc)" by blast
    from c h have cond: "jsgt (lengthSq L (snd (snd st))) limit \<and>
        jslt (Fin (real count)) maxIterations" by blast
    from 1(2)
    have "ikWhile' L K joint target A alpha limit maxIterations chain (increment count) st sc = Some y"
      unfolding if_P[OF cond] sw by simp
    from 1(1)[OF this] h i show False by blast
  qed
qed

lemma ikWhile_stalls:
  assumes "sweep L K joint target A alpha (rev chain) st sc = (Inr st, sc)"
    and "jsgt (lengthSq L (snd (snd st))) limit" and "2 ^ 53 < m" and "count \<le> 2 ^ 53"
  shows "ikWhile L K joint target A alpha limit (Fin m) chain count st sc = None"
proof (cases "ikWhile L K joint target A alpha limit (Fin m) chain count st sc")
  case None then show ?thesis .
next
  case (Some y)
  from ikWhile_no_result[OF Some] assms show ?thesis by blast
qed

lemma ccdStep_degenerate:
  assumes eng: "engineOn K sc0" and eff: "joint \<in> set (map name sc0)"
    and inv: "ikInv K sc0 st sc" and dof: "dof \<in> {''x'', ''y'', ''z''}"
    and deg: "\<And>d mx p t. ccdAngle L d mx p t = None"
  shows "ccdStep L K joint target A alpha jointName dof st sc = (Inr st, sc)"
proof -
  obtain vec fwd dErr where st: "st = (vec, fwd, dErr)" by (cases st)
  from inv st have fk: "fst ` set fwd = set (map name sc0)" by (simp add: ikInv_def)
  let ?l = "if includesStr ''_XYZ_'' jointName then jointName @ ''/'' @ dof else jointName"
  show ?thesis
  proof (cases "map_of (qConfigIndex K) ?l")
    case None
    then show ?thesis by (simp add: ccdStep_def st)
  next
    case (Some i)
    from indexed_joint_in_tree[OF eng Some dof]
    have jn: "jointName \<in> set (map name sc0)" by simp
    from jn fk obtain matrix where mx: "map_of fwd jointName = Some matrix"
      by (metis map_of_eq_None_iff not_Some_eq)
    from eff fk positionOf_ok[of joint fwd] obtain p_end where pe: "positionOf fwd joint = Inr p_end"
      by auto
    show ?thesis using Some mx pe deg by (simp add: ccdStep_def st)
  qed
qed

lemma dofLoop_degenerate:
  assumes eng: "engineOn K sc0" and eff: "joint \<in> set (map name sc0)"
    and inv: "ikInv K sc0 st sc" and deg: "\<And>d mx p t. ccdAngle L d mx p t = None"
  shows "set dofs \<subseteq> {''x'', ''y'', ''z''} \<Longrightarrow>
     dofLoop L K joint target A alpha jointName dofs st sc = (Inr st, sc)"
proof (induction dofs)
  case Nil then show ?case by simp
next
  case (Cons dof dofs)
  then have d: "dof \<in> {''x'', ''y'', ''z''}" "set dofs \<subseteq> {''x'', ''y'', ''z''}" by simp_all
  from ccdStep_degenerate[OF eng eff inv d(1) deg, of target A alpha jointName] Cons.IH[OF d(2)]
  show ?case by simp
qed

lemma sweep_degenerate:
  assumes eng: "engineOn K sc0" and eff: "joint \<in> set (map name sc0)"
    and inv: "ikInv K sc0 st sc" and deg: "\<And>d mx p t. ccdAngle L d mx p t = None"
  shows "sweep L K joint target A alpha jointNames st sc = (Inr st, sc)"
proof (induction jointNames)
  case Nil then show ?case by simp
next
  case (Cons jointName jointNames)
  have "set (if includesStr ''_XYZ_'' jointName then [''x'', ''y'', ''z''] else [''z''])
          \<subseteq> {''x'', ''y'', ''z''}" by simp
  from dofLoop_degenerate[OF eng eff inv deg this, of target A alpha jointName] Cons.IH
  show ?case by simp
qed

lemma inverseKinematics_never_returns:
  assumes "engineOn K sc" "plainNames sc" "joint \<in> set (map name sc)"
    and deg: "\<And>d mx p t. ccdAngle L d mx p t = None"
    and res: "initialResidual L K q joint target A sc = Inr d"
    and far: "jsgt (lengthSq L d) limit" and big: "2 ^ 53 < m"
  shows "inverseKinematics L K outer q joint target A alpha limit (Fin m) sc = None"
proof -
  let ?vec = "configToVector K q"
  have len: "length ?vec = qConfigLength K" by (rule configToVector_slots(1)[OF assms(1)])
  from inverseKinematics_start[OF assms(1,2), of q L A]
  obtain q1 fwd sc1 where q1: "vectorToConfig K ?vec = Inr q1"
    and fk: "forwardKinematics L K q1 A sc = (Inr fwd, sc1)"
    and keys: "fst ` set fwd = set (map name sc)" and nm: "map name sc1 = map name sc"
    by blast
  from assms(3) keys positionOf_ok[of joint fwd] obtain p where p: "positionOf fwd joint = Inr p"
    by auto
  from res q1 fk p have d: "d = subVectors L target p" by (simp add: initialResidual_def)
  have inv: "ikInv K sc (?vec, fwd, d) sc1"
    using len keys nm by (simp add: ikInv_def)
  have sw: "sweep L K joint target A alpha (rev (getChain K outer sc1 joint)) (?vec, fwd, d) sc1 =
        (Inr (?vec, fwd, d), sc1)"
    by (rule sweep_degenerate[OF assms(1,3) inv deg])
  have "ikWhile L K joint target A alpha limit (Fin m) (getChain K outer sc1 joint) 0
          (?vec, fwd, d) sc1 = None"
    by (rule ikWhile_stalls[OF sw _ big]) (simp_all add: far)
  with q1 fk p d show ?thesis by (simp add: inverseKinematics_def Let_def)
qed

lemma setConfiguration_origin:
  "list_all (\<lambda>n. matrixWorld n = identity4) sc \<Longrightarrow>
   list_all (\<lambda>n. matrixWorld n = identity4) (snd (setConfiguration originLib K q sc))"
proof (induction q arbitrary: sc)
  case Nil then show ?case by simp
next
  case (Cons e q)
  obtain j qv where e: "e = (j, qv)" by (cases e)
  show ?case
  proof (cases "map_of (mapK K) j")
    case None with Cons.prems show ?thesis by (simp add: e)
  next
    case (Some c)
    let ?sc = "sc[c := (sc ! c)\<lparr> rotation := newRotation (yup K) qv (rotation (sc ! c)) \<rparr>]"
    have a: "list_all (\<lambda>n. matrixWorld n = identity4) ?sc"
      unfolding list_all_length
    proof (intro allI impI)
      fix n assume "n < length ?sc"
      with Cons.prems show "matrixWorld (?sc ! n) = identity4"
        by (cases "n = c") (simp_all add: list_all_length)
    qed
    from Cons.IH[OF a] Some show ?thesis by (simp add: e updateMatrixWorld_origin[OF a])
  qed
qed

lemma forwardKinematicsRec_origin:
  "list_all (\<lambda>n. matrixWorld n = identity4) sc \<Longrightarrow>
   (\<forall>k m. map_of links k = Some m \<longrightarrow> m = identity4) \<Longrightarrow>
   map_of (forwardKinematicsRec sc links) nm = Some m \<Longrightarrow> m = identity4"
  unfolding forwardKinematicsRec_def
proof (induction sc arbitrary: links)
  case Nil then show ?case by simp
next
  case (Cons a sc)
  from Cons.prems(1,2)
  have "\<forall>k m. map_of (AList.update (name a) (matrixWorld a) links) k = Some m \<longrightarrow> m = identity4"
    by (auto simp: update_conv')
  with Cons show ?case by simp
qed

lemma getPosition_identity4: "getPosition identity4 = Vector3 (Fin 0) (Fin 0) (Fin 0)"
  by (simp add: getPosition_def identity4_def elemAt_def)

lemma initialResidual_origin:
  assumes "engineOn K sc" "plainNames sc" "joint \<in> set (map name sc)"
    and "list_all (\<lambda>n. matrixWorld n = identity4) sc"
  shows "initialResidual originLib K q joint target A sc =
           Inr (exactSub target (Vector3 (Fin 0) (Fin 0) (Fin 0)))"
proof -
  from inverseKinematics_start[OF assms(1,2), of q originLib A]
  obtain q1 fwd sc1 where q1: "vectorToConfig K (configToVector K q) = Inr q1"
    and fk: "forwardKinematics originLib K q1 A sc = (Inr fwd, sc1)"
    and keys: "fst ` set fwd = set (map name sc)" by blast
  from fk have f: "fwd = forwardKinematicsRec (snd (setConfiguration originLib K q1 sc)) []"
    by (auto simp: forwardKinematics_def Let_def split: prod.splits sum.splits)
  from assms(3) keys positionOf_ok[of joint fwd] obtain p where p: "positionOf fwd joint = Inr p"
    by auto
  then obtain m where m: "map_of fwd joint = Some m" "p = getPosition m"
    by (auto simp: positionOf_def split: option.splits)
  from forwardKinematicsRec_origin[OF setConfiguration_origin[OF assms(4)] _ m(1)[unfolded f]]
  have "m = identity4" by simp
  with m(2) have "p = Vector3 (Fin 0) (Fin 0) (Fin 0)" by (simp add: getPosition_identity4)
  with q1 fk p show ?thesis by (simp add: initialResidual_def originLib_def)
qed

lemma inverseKinematics_stalls_above_2_53:
  "inverseKinematics originLib bearEngine [''Scene''] (getCurrentStateConfig bearEngine bearTree)
     ''Effector_Back_L'' (Vector3 (Fin 10) (Fin 0) (Fin 0)) identity4 (Fin (1/2)) (Fin (1/10000))
     (Fin (2 ^ 53 + 2)) bearTree = None"
proof -
  have eff: "''Effector_Back_L'' \<in> set (map name bearTree)" by (simp add: bearTree_def node_def)
  have idm: "list_all (\<lambda>n. matrixWorld n = identity4) bearTree" by (simp add: bearTree_def node_def)
  have deg: "\<And>d mx p t. ccdAngle originLib d mx p t = None" by (simp add: originLib_def)
  note res = initialResidual_origin[OF engineOn_bear bear_plain eff idm,
      of "getCurrentStateConfig bearEngine bearTree" "Vector3 (Fin 10) (Fin 0) (Fin 0)" identity4]
  have far: "jsgt (lengthSq originLib
                (exactSub (Vector3 (Fin 10) (Fin 0) (Fin 0)) (Vector3 (Fin 0) (Fin 0) (Fin 0))))
              (Fin (1/10000))"
    by (simp add: originLib_def)
  have big: "(2::real) ^ 53 < 2 ^ 53 + 2" by simp
  show ?thesis
    by (rule inverseKinematics_never_returns[OF engineOn_bear bear_plain eff deg res far big])
qed

lemma roundtrip_total:
  assumes "engineOn K sc" "wellShaped sc q"
    and "\<forall>nm \<in> set (map name sc). threeDof nm \<or> oneDof nm \<longrightarrow> map_of q nm \<noteq> None"
  shows "map_of (concat (map (entryOf (slotValue q)) (map fst (mapK K)))) = map_of q"
proof
  fix nm
  show "map_of (concat (map (entryOf (slotValue q)) (map fst (mapK K)))) nm = map_of q nm"
    using roundtrip_map_of[OF assms(1,2), of nm] assms(3)
    by (auto simp: sentinelEntry_def split: option.splits)
qed

text \<open>Why the names must be plain: a single-axis joint named like a component label is
  read back from the vector as the \<^verbatim>\<open>x\<close> component of a joint the tree does not have, and
  the forward-kinematics evaluation of that configuration raises.\<close>

lemma inverseKinematics_component_named_joint_raises:
  "\<not> plainNames slashTree \<and>
   vectorToConfig (Kinematics_init slashTree False)
     (configToVector (Kinematics_init slashTree False) [(''RJoint_A_Z_/x'', Number (Fin 0))]) =
     Inr [(''RJoint_A_Z_'', Rot3Angles (Fin 0) Undefined Undefined)] \<and>
   map_option fst
     (inverseKinematics originLib (Kinematics_init slashTree False) []
        [(''RJoint_A_Z_/x'', Number (Fin 0))] ''Body''
        (Vector3 (Fin 0) (Fin 0) (Fin 0)) identity4 (Fin (1/2)) (Fin (1/10000)) (Fin 100)
        slashTree)
     = Some (Inl TypeError)"
  by code_simp

text \<open>
  Claim C5. The specification says that \<^verbatim>\<open>solve\<close> returns for every call with a finite
  \<^verbatim>\<open>maxIterations\<close>, never raising, and that for an effector name absent from the tree the
  chain is the singleton and the solver makes no progress. \<^verbatim>\<open>getChain\<close> does tolerate the
  absent name (\<^verbatim>\<open>this.map[endEffector]?.parent\<close>), but \<^verbatim>\<open>inverseKinematics\<close> reads
  \<^verbatim>\<open>fwd[joint].elements\<close> three lines before it calls \<^verbatim>\<open>getChain\<close>, without a test, and
  raises a \<^verbatim>\<open>TypeError\<close>. On the engine the constructor returns over \<open>bearTree\<close>, which
  has no node \<^verbatim>\<open>Effector_Front_L\<close>: the chain of that name is the singleton, and the call
  of the solver for it raises. (For an effector of the tree and a natural number
  \<^verbatim>\<open>maxIterations\<close> up to \<open>2^53\<close> the call returns with the count the claim states, lemma
  \<open>inverseKinematics_returns\<close>; above \<open>2^53\<close> the counter stops advancing, lemma
  \<open>inverseKinematics_stalls_above_2_53\<close>.)
\<close>

theorem inverseKinematics_absent_effector_raises:
  "Kinematics_new originLib bearTree False = (Inr bearEngine, bearTree) \<and>
   ''Effector_Front_L'' \<notin> set (map name bearTree) \<and>
   getChain bearEngine [''Scene''] bearTree ''Effector_Front_L'' = [''Effector_Front_L''] \<and>
   map_option fst
     (inverseKinematics originLib bearEngine [''Scene'']
        (getCurrentStateConfig bearEngine bearTree) ''Effector_Front_L''
        (Vector3 (Fin 1) (Fin 0) (Fin 0)) identity4 (Fin (1/2)) (Fin (1/10000)) (Fin 100)
        bearTree) = Some (Inl TypeError)"
proof -
  have n: "''Effector_Front_L'' \<notin> set (map name bearTree)"
    by (simp add: bearTree_def node_def)
  have c: "getChain bearEngine [''Scene''] bearTree ''Effector_Front_L'' = [''Effector_Front_L'']"
    by (simp add: getChain_def bearEngine_fields)
  from inverseKinematics_absent_effector[OF engineOn_bear bear_plain n]
  have "map_option fst
     (inverseKinematics originLib bearEngine [''Scene'']
        (getCurrentStateConfig bearEngine bearTree) ''Effector_Front_L''
        (Vector3 (Fin 1) (Fin 0) (Fin 0)) identity4 (Fin (1/2)) (Fin (1/10000)) (Fin 100)
        bearTree) = Some (Inl TypeError)"
    by (metis fst_conv option.simps(9))
  with n c show ?thesis by (simp add: bearEngine_constructed)
qed

text \<open>
  Claim C6, as amended. The claim returns \<open>q0\<close> itself; the source returns
  \<^verbatim>\<open>vectorToConfig(vec)\<close>, in which the joints \<open>q0\<close> leaves out carry the sentinel. For an
  engine over a tree of plain names and a configuration \<open>q0\<close> over a subset of the
  tree's joints: when the residual the solver computes before its loop does not exceed
  the tolerance, the call returns iteration count 0, that residual, and a configuration
  that agrees with \<open>q0\<close> on the joints of \<open>q0\<close> and gives the sentinel to every other
  joint of the index; this is \<open>q0\<close> when \<open>q0\<close> has an entry for every joint of the index.
\<close>

theorem inverseKinematics_converged:
  assumes "engineOn K sc" "plainNames sc" "wellShaped sc q0"
    and "initialResidual L K q0 joint target A sc = Inr d"
    and "\<not> jsgt (lengthSq L d) limit"
  shows "\<exists>finalQ fwd sc'.
           inverseKinematics L K outer q0 joint target A alpha limit maxIterations sc =
             Some (Inr (finalQ, d, 0, fwd), sc') \<and>
           (\<forall>nm. map_of finalQ nm =
              (case map_of q0 nm of
                 Some qv \<Rightarrow> Some qv
               | None \<Rightarrow> if nm \<in> set (map name sc) then sentinelEntry nm else None)) \<and>
           ((\<forall>nm \<in> set (map name sc). threeDof nm \<or> oneDof nm \<longrightarrow> map_of q0 nm \<noteq> None)
              \<longrightarrow> map_of finalQ = map_of q0)"
proof -
  let ?q1 = "concat (map (entryOf (slotValue q0)) (map fst (mapK K)))"
  have r: "vectorToConfig K (configToVector K q0) = Inr ?q1"
    by (rule roundtrip_entries[OF assms(1,2)])
  from assms(4) r obtain fwd sc1 p where
    fk: "forwardKinematics L K ?q1 A sc = (Inr fwd, sc1)" and
    p: "positionOf fwd joint = Inr p" and d: "d = subVectors L target p"
    by (auto simp: initialResidual_def split: prod.splits sum.splits)
  have w: "ikWhile L K joint target A alpha limit maxIterations (getChain K outer sc1 joint) 0
             (configToVector K q0, fwd, d) sc1 = Some (Inr (0, configToVector K q0, fwd, d), sc1)"
    using assms(5) by (intro ikWhile_exit) simp
  have ik: "inverseKinematics L K outer q0 joint target A alpha limit maxIterations sc =
          Some (Inr (?q1, d, 0, fwd), sc1)"
    using r fk p w d by (simp add: inverseKinematics_def Let_def)
  have m: "\<forall>nm. map_of ?q1 nm =
      (case map_of q0 nm of Some qv \<Rightarrow> Some qv
       | None \<Rightarrow> if nm \<in> set (map name sc) then sentinelEntry nm else None)"
    using roundtrip_map_of[OF assms(1,3)] by blast
  have t: "(\<forall>nm \<in> set (map name sc). threeDof nm \<or> oneDof nm \<longrightarrow> map_of q0 nm \<noteq> None)
              \<longrightarrow> map_of ?q1 = map_of q0"
    using roundtrip_total[OF assms(1,3)] by blast
  from ik m t show ?thesis by blast
qed

theorem inverseKinematics_converged_witness:
  "engineOn legEngine legTree \<and> plainNames legTree \<and>
   wellShaped legTree [(''RJoint_Hip_XYZ_L'', Rot3Angles (Fin 0) (Fin 0) (Fin 0)),
                       (''RJoint_Knee_Z_L'', Number (Fin 0))] \<and>
   initialResidual originLib legEngine
     [(''RJoint_Hip_XYZ_L'', Rot3Angles (Fin 0) (Fin 0) (Fin 0)), (''RJoint_Knee_Z_L'', Number (Fin 0))]
     ''Effector_Back_L'' (Vector3 (Fin 0) (Fin 0) (Fin 0)) identity4 legTree
     = Inr (Vector3 (Fin 0) (Fin 0) (Fin 0)) \<and>
   \<not> jsgt (lengthSq originLib (Vector3 (Fin 0) (Fin 0) (Fin 0))) (Fin (1/10000)) \<and>
   (\<exists>finalQ fwd sc'.
      inverseKinematics originLib legEngine []
        [(''RJoint_Hip_XYZ_L'', Rot3Angles (Fin 0) (Fin 0) (Fin 0)), (''RJoint_Knee_Z_L'', Number (Fin 0))]
        ''Effector_Back_L'' (Vector3 (Fin 0) (Fin 0) (Fin 0)) identity4 (Fin (1/2))
        (Fin (1/10000)) (Fin 100) legTree =
        Some (Inr (finalQ, Vector3 (Fin 0) (Fin 0) (Fin 0), 0, fwd), sc') \<and>
      map_of finalQ =
        map_of [(''RJoint_Hip_XYZ_L'', Rot3Angles (Fin 0) (Fin 0) (Fin 0)),
                (''RJoint_Knee_Z_L'', Number (Fin 0))])"
proof -
  let ?q = "[(''RJoint_Hip_XYZ_L'', Rot3Angles (Fin 0) (Fin 0) (Fin 0)),
             (''RJoint_Knee_Z_L'', Number (Fin 0))]"
  have h: "engineOn legEngine legTree" by (simp add: engineOn_def example_defs)
  have p: "plainNames legTree"
    by (simp add: plainNames_def plainName_def legTree_def node_def oneDof_def startsWith_def
        endsWith_def)
  have w: "wellShaped legTree ?q"
    by (simp add: wellShaped_def legTree_def node_def oneDof_def threeDof_def startsWith_def)
  have i: "initialResidual originLib legEngine ?q ''Effector_Back_L''
      (Vector3 (Fin 0) (Fin 0) (Fin 0)) identity4 legTree = Inr (Vector3 (Fin 0) (Fin 0) (Fin 0))"
    by code_simp
  have c: "\<not> jsgt (lengthSq originLib (Vector3 (Fin 0) (Fin 0) (Fin 0))) (Fin (1/10000))"
    by (simp add: originLib_def)
  have t: "\<forall>nm \<in> set (map name legTree). threeDof nm \<or> oneDof nm \<longrightarrow> map_of ?q nm \<noteq> None"
    by (simp add: legTree_def node_def oneDof_def threeDof_def startsWith_def)
  from inverseKinematics_converged[OF h p w i c, of "[]" "Fin (1/2)" "Fin 100"] t
  have "\<exists>finalQ fwd sc'.
      inverseKinematics originLib legEngine [] ?q
        ''Effector_Back_L'' (Vector3 (Fin 0) (Fin 0) (Fin 0)) identity4 (Fin (1/2))
        (Fin (1/10000)) (Fin 100) legTree =
        Some (Inr (finalQ, Vector3 (Fin 0) (Fin 0) (Fin 0), 0, fwd), sc') \<and>
      map_of finalQ = map_of ?q" by blast
  with h p w i c show ?thesis by simp
qed

theorem inverseKinematics_converged_partial_config_changes:
  "map_option fst
     (inverseKinematics originLib legEngine [] [(''RJoint_Knee_Z_L'', Number (Fin 0))]
        ''Effector_Back_L'' (Vector3 (Fin 0) (Fin 0) (Fin 0)) identity4 (Fin (1/2))
        (Fin (1/10000)) (Fin 100) legTree)
   = Some (Inr ([(''RJoint_Hip_XYZ_L'', Rot3Angles (Fin (- 1000)) (Fin (- 1000)) (Fin (- 1000))),
                 (''RJoint_Knee_Z_L'', Number (Fin 0))],
                Vector3 (Fin 0) (Fin 0) (Fin 0), 0,
                [(''Body'', identity4), (''RJoint_Hip_XYZ_L'', identity4),
                 (''RJoint_Knee_Z_L'', identity4), (''Effector_Back_L'', identity4)]))"
  by code_simp

section \<open>The sentinel\<close>

text \<open>The configuration read back from the vector of \<open>q\<close> is \<open>q\<close> completed with the
  sentinel, and the completed configuration has the vector of \<open>q\<close>.\<close>

lemma concat_map_filter:
  "(\<And>k. k \<in> set ks \<Longrightarrow> f k = (if P k then [g k] else [])) \<Longrightarrow>
   concat (map f ks) = map g (filter P ks)"
  by (induction ks) simp_all

lemma completed_entries:
  assumes "engineOn K sc" "wellShaped sc q"
  shows "concat (map (entryOf (slotValue q)) (map fst (mapK K))) = completed K q"
  unfolding completed_def
proof (rule concat_map_filter)
  fix k assume k: "k \<in> set (map fst (mapK K))"
  note keys = engine_keys[OF assms(1)]
  note m1 = map_of_entries[OF keys(2), of "slotValue q" k]
  note m2 = roundtrip_map_of[OF assms, of k]
  from k keys(3) have inT: "k \<in> set (map name sc)" by simp
  consider "threeDof k" | "oneDof k" | "\<not> threeDof k" "\<not> oneDof k" by blast
  then show "entryOf (slotValue q) k =
      (if threeDof k \<or> oneDof k
       then [(k, case map_of q k of Some qv \<Rightarrow> qv
                 | None \<Rightarrow> if threeDof k then Rot3Angles SENTINEL SENTINEL SENTINEL
                           else Number SENTINEL)]
       else [])"
  proof cases
    case 1
    with m1 m2 k inT have "Some (Rot3Angles (slotValue q (k @ ''/x'')) (slotValue q (k @ ''/y''))
               (slotValue q (k @ ''/z''))) =
        (case map_of q k of Some qv \<Rightarrow> Some qv | None \<Rightarrow> sentinelEntry k)"
      by (auto simp del: map_map set_map split: option.splits)
    with 1 show ?thesis
      by (cases "map_of q k") (simp_all add: entryOf_three sentinelEntry_def)
  next
    case 2
    then have nt: "\<not> threeDof k" by (simp add: oneDof_def threeDof_def)
    with 2 m1 m2 k inT have "Some (Number (slotValue q k)) =
        (case map_of q k of Some qv \<Rightarrow> Some qv | None \<Rightarrow> sentinelEntry k)"
      by (auto simp del: map_map set_map split: option.splits)
    with 2 nt show ?thesis
      by (cases "map_of q k") (simp_all add: entryOf_one sentinelEntry_def)
  next
    case 3
    then show ?thesis by (simp add: entryOf_none)
  qed
qed

lemma entries_member:
  "k \<in> set ks \<Longrightarrow> threeDof k \<Longrightarrow>
     (k, Rot3Angles (val (k @ ''/x'')) (val (k @ ''/y'')) (val (k @ ''/z'')))
       \<in> set (concat (map (entryOf val) ks))"
  "k \<in> set ks \<Longrightarrow> oneDof k \<Longrightarrow> (k, Number (val k)) \<in> set (concat (map (entryOf val) ks))"
  by (induction ks) (auto simp: entryOf_three entryOf_one)

lemma completed_wellShaped:
  assumes "engineOn K sc" "wellShaped sc q"
  shows "wellShaped sc (completed K q)"
proof -
  note keys = engine_keys[OF assms(1)]
  have d: "distinct (map fst (completed K q))"
    using keys(2) by (simp add: completed_def comp_def)
  have "nm \<in> set (map name sc) \<and>
        (case qv of Number v \<Rightarrow> oneDof nm | Rot3Angles a b c \<Rightarrow> threeDof nm)"
    if "(nm, qv) \<in> set (completed K q)" for nm qv
  proof -
    from that have nm: "nm \<in> set (map fst (mapK K))" "threeDof nm \<or> oneDof nm"
      and qv: "qv = (case map_of q nm of Some qv \<Rightarrow> qv
                 | None \<Rightarrow> if threeDof nm then Rot3Angles SENTINEL SENTINEL SENTINEL
                           else Number SENTINEL)"
      by (auto simp: completed_def)
    show ?thesis
    proof (cases "map_of q nm")
      case None
      with qv nm keys(3) show ?thesis by (auto simp del: set_map)
    next
      case (Some qv')
      then have "(nm, qv') \<in> set q" by (rule map_of_SomeD)
      with assms(2) Some qv show ?thesis
        unfolding wellShaped_def list_all_iff by auto
    qed
  qed
  with d show ?thesis unfolding wellShaped_def list_all_iff by auto
qed

lemma completed_vector:
  assumes "engineOn K sc" "wellShaped sc q"
  shows "configToVector K (completed K q) = configToVector K q"
proof -
  note keys = engine_keys[OF assms(1)]
  note ix = engine_index[OF assms(1)]
  note w = completed_wellShaped[OF assms]
  have "slotValue (completed K q) l = slotValue q l" if l: "l \<in> set (qConfigIndexReversed K)" for l
  proof -
    from l obtain k where k: "k \<in> set (map fst (mapK K))" "l \<in> set (dofLabels k)"
      unfolding ix(1) by auto
    consider "threeDof k" | "oneDof k" | "\<not> threeDof k" "\<not> oneDof k" by blast
    then show ?thesis
    proof cases
      case 1
      with k(1) have "(k, Rot3Angles (slotValue q (k @ ''/x'')) (slotValue q (k @ ''/y''))
               (slotValue q (k @ ''/z''))) \<in> set (concat (map (entryOf (slotValue q)) (map fst (mapK K))))"
        by (intro entries_member(1))
      then have "(k, Rot3Angles (slotValue q (k @ ''/x'')) (slotValue q (k @ ''/y''))
               (slotValue q (k @ ''/z''))) \<in> set (completed K q)"
        by (simp only: completed_entries[OF assms])
      from writes_member(2)[OF this] slotValue_written[OF w] k(2) 1
      show ?thesis by (auto simp: dofLabels_three)
    next
      case 2
      with k(1) have "(k, Number (slotValue q k)) \<in>
          set (concat (map (entryOf (slotValue q)) (map fst (mapK K))))"
        by (intro entries_member(2))
      then have "(k, Number (slotValue q k)) \<in> set (completed K q)"
        by (simp only: completed_entries[OF assms])
      from writes_member(1)[OF this] slotValue_written[OF w] k(2) 2
      show ?thesis by (auto simp: dofLabels_one)
    next
      case 3
      with k(2) show ?thesis by (simp add: dofLabels_none)
    qed
  qed
  then show ?thesis
    by (simp add: configToVector_eq[OF assms(1)])
qed

lemma completed_roundtrip:
  assumes "engineOn K sc" "plainNames sc" "wellShaped sc q"
  shows "vectorToConfig K (configToVector K q) = Inr (completed K q)"
  by (simp only: roundtrip_entries[OF assms(1,2)] completed_entries[OF assms(1,3)])

text \<open>The tree on which the completed configuration is evaluated.\<close>

lemma completed_posed:
  assumes eng: "engineOn K sc" and w: "wellShaped sc q"
  shows "\<exists>sc1. forwardKinematics L K (completed K q) A sc =
           (Inr (forwardKinematicsRec (snd (setConfiguration L K (completed K q) sc)) []), sc1)"
proof -
  note cw = completed_wellShaped[OF eng w]
  have keys: "\<forall>k \<in> fst ` set (completed K q). k \<in> set (map name sc)"
    using cw unfolding wellShaped_def list_all_iff by auto
  have "\<exists>v. qv = Number v" if "(nm, qv) \<in> set (completed K q)" "\<not> threeDof nm" for nm qv
  proof -
    from cw that(1) have "case qv of Number v \<Rightarrow> oneDof nm | Rot3Angles a b c \<Rightarrow> threeDof nm"
      unfolding wellShaped_def list_all_iff by auto
    with that(2) show ?thesis by (cases qv) simp_all
  qed
  then have shape: "yup K \<longrightarrow>
      (\<forall>(nm, qv) \<in> set (completed K q). captured nm \<and> \<not> threeDof nm \<longrightarrow> (\<exists>v. qv = Number v))"
    by fast
  from forwardKinematics_restores_aux[OF eng keys shape, of L A] show ?thesis by blast
qed

lemma completed_rotations:
  assumes eng: "engineOn K sc" and w: "wellShaped sc q"
    and c: "map_of (mapK K) nm = Some c" and dof: "threeDof nm \<or> oneDof nm"
    and missing: "map_of q nm = None"
  shows "rotation (snd (setConfiguration L K (completed K q) sc) ! c) =
           (if threeDof nm then Euler SENTINEL SENTINEL SENTINEL
            else if yup K then Euler (ex (rotation (sc ! c))) SENTINEL (ez (rotation (sc ! c)))
            else Euler (ex (rotation (sc ! c))) (ey (rotation (sc ! c))) SENTINEL)"
proof -
  let ?q = "completed K q"
  let ?e = "if threeDof nm then Rot3Angles SENTINEL SENTINEL SENTINEL else Number SENTINEL"
  note cw = completed_wellShaped[OF eng w]
  from cw have d: "distinct (map fst ?q)" by (simp add: wellShaped_def)
  have k1: "\<forall>k \<in> fst ` set ?q. map_of (mapK K) k \<noteq> None"
    using cw engine_map_dom[OF eng] unfolding wellShaped_def list_all_iff by auto
  from engine_map_val[OF eng c] have cl: "c < length sc" "name (sc ! c) = nm" by simp_all
  from c have "(nm, c) \<in> set (mapK K)" by (rule map_of_SomeD)
  then have "nm \<in> set (map fst (mapK K))" by force
  with dof missing have mem: "(nm, ?e) \<in> set ?q" by (auto simp: completed_def)
  have inj: "k' = nm" if "k' \<in> fst ` set ?q" "map_of (mapK K) k' = Some c" for k'
    using engine_map_val[OF eng that(2)] cl(2) by simp
  have "fold (rotate (yup K) (mapK K)) ?q (map rotation sc) ! c =
        newRotation (yup K) ?e (map rotation sc ! c)"
    by (rule fold_rotate_own[OF d mem c _ inj]) (simp_all add: cl(1))
  moreover have "length (snd (setConfiguration L K ?q sc)) = length sc"
    using setConfiguration_keeps[of L K ?q sc] by (metis length_map)
  ultimately have "rotation (snd (setConfiguration L K ?q sc) ! c) =
        newRotation (yup K) ?e (rotation (sc ! c))"
    using setConfiguration_rotations[OF k1, of L sc] cl(1) by (metis nth_map)
  then show ?thesis by (simp add: newRotation_def)
qed

text \<open>\<^verbatim>\<open>calcJacobian\<close> returns one column per slot; the first is the difference quotient at
  the vector with slot 0 moved by \<^verbatim>\<open>dq\<close>.\<close>

lemma calcJacobianLoop_ok:
  assumes eng: "engineOn K sc0" and plain: "plainNames sc0" and eff: "joint \<in> set (map name sc0)"
    and len: "length cVec = qConfigLength K"
  shows "map name sc = map name sc0 \<Longrightarrow> \<forall>i \<in> set slots. i < qConfigLength K \<Longrightarrow>
     \<exists>cols sc'. calcJacobianLoop L K cVec joint pos dq A slots jac sc = (Inr (jac @ cols), sc') \<and>
        length cols = length slots \<and> map name sc' = map name sc0"
proof (induction slots arbitrary: jac sc)
  case Nil then show ?case by simp
next
  case (Cons i slots)
  let ?vec = "store cVec i (jsadd (elemAt cVec i) dq)"
  from Cons.prems(2) len have len': "length ?vec = qConfigLength K" by (simp add: store_length)
  from forwardKinematics_of_vector[OF eng plain Cons.prems(1) len', of L A]
  obtain q2 fwd2 sc2 where q2: "vectorToConfig K ?vec = Inr q2"
    and fk: "forwardKinematics L K q2 A sc = (Inr fwd2, sc2)"
    and keys: "fst ` set fwd2 = set (map name sc0)" and nm: "map name sc2 = map name sc0"
    by blast
  from eff keys positionOf_ok[of joint fwd2] obtain p2 where p2: "positionOf fwd2 joint = Inr p2"
    by auto
  from Cons.prems(2) have rest: "\<forall>i \<in> set slots. i < qConfigLength K" by simp
  from Cons.IH[OF nm rest, of "jac @ [finiteDifference L p2 pos dq]"]
  obtain cols sc' where r:
    "calcJacobianLoop L K cVec joint pos dq A slots (jac @ [finiteDifference L p2 pos dq]) sc2 =
       (Inr ((jac @ [finiteDifference L p2 pos dq]) @ cols), sc')"
    "length cols = length slots" "map name sc' = map name sc0" by blast
  have "calcJacobianLoop L K cVec joint pos dq A (i # slots) jac sc =
        (Inr (jac @ (finiteDifference L p2 pos dq # cols)), sc')"
    using q2 fk p2 r(1) by simp
  with r(2,3) show ?case by (intro exI[of _ "finiteDifference L p2 pos dq # cols"] exI[of _ sc']) simp
qed

lemma calcJacobian_columns:
  assumes eng: "engineOn K sc" and plain: "plainNames sc" and eff: "joint \<in> set (map name sc)"
  shows "\<exists>jac sc'. calcJacobian L K q joint pos dq A sc = (Inr jac, sc') \<and>
           length jac = qConfigLength K"
proof -
  have len: "length (configToVector K q) = qConfigLength K"
    by (rule configToVector_slots(1)[OF eng])
  from calcJacobianLoop_ok[OF eng plain eff len refl, of "[0 ..< qConfigLength K]" L pos dq A "[]"]
  show ?thesis by (auto simp: calcJacobian_def)
qed

lemma calcJacobian_first_column:
  assumes eng: "engineOn K sc" and plain: "plainNames sc" and eff: "joint \<in> set (map name sc)"
    and pos: "0 < qConfigLength K"
  shows "\<exists>q2 fwd2 sc2 p2 rest sc'.
           vectorToConfig K (store (configToVector K q) 0
                               (jsadd (elemAt (configToVector K q) 0) dq)) = Inr q2 \<and>
           forwardKinematics L K q2 A sc = (Inr fwd2, sc2) \<and>
           positionOf fwd2 joint = Inr p2 \<and>
           calcJacobian L K q joint pos dq A sc = (Inr (finiteDifference L p2 pos dq # rest), sc')"
proof -
  let ?c = "configToVector K q"
  let ?vec = "store ?c 0 (jsadd (elemAt ?c 0) dq)"
  have len: "length ?c = qConfigLength K" by (rule configToVector_slots(1)[OF eng])
  with pos have len': "length ?vec = qConfigLength K" by (simp add: store_length)
  from forwardKinematics_of_vector[OF eng plain refl len', of L A]
  obtain q2 fwd2 sc2 where q2: "vectorToConfig K ?vec = Inr q2"
    and fk: "forwardKinematics L K q2 A sc = (Inr fwd2, sc2)"
    and keys: "fst ` set fwd2 = set (map name sc)" and nm: "map name sc2 = map name sc"
    by blast
  from eff keys positionOf_ok[of joint fwd2] obtain p2 where p2: "positionOf fwd2 joint = Inr p2"
    by auto
  have u: "[0 ..< qConfigLength K] = 0 # [1 ..< qConfigLength K]"
    using pos by (simp add: upt_conv_Cons)
  from calcJacobianLoop_ok[OF eng plain eff len nm, of "[1 ..< qConfigLength K]" L pos dq A
      "[finiteDifference L p2 pos dq]"]
  obtain cols sc' where
    "calcJacobianLoop L K ?c joint pos dq A [1 ..< qConfigLength K]
       [finiteDifference L p2 pos dq] sc2 = (Inr ([finiteDifference L p2 pos dq] @ cols), sc')"
    by auto
  then have "calcJacobian L K q joint pos dq A sc = (Inr (finiteDifference L p2 pos dq # cols), sc')"
    using q2 fk p2 by (simp add: calcJacobian_def u)
  with q2 fk p2 show ?thesis by blast
qed

text \<open>
  Claim C10. For an engine over a tree and any configuration \<open>q\<close>, the vector has one
  slot per label of the index, and a slot whose label \<open>q\<close> does not write holds the
  sentinel \<open>-1000\<close>. Consequently, for a configuration \<open>q\<close> over a subset of the tree's
  joints, \<^verbatim>\<open>inverseKinematics\<close> and \<^verbatim>\<open>calcJacobian\<close> do with \<open>q\<close> what they do with
  \<open>completed K q\<close>, the configuration that gives \<open>-1000\<close> to every axis of every joint
  of the index that \<open>q\<close> leaves out: the two configurations have the same vector and the
  same results. In the tree on which the completed configuration is evaluated, the node
  of a joint that \<open>q\<close> leaves out is turned to \<open>-1000\<close> (on its three axes for a
  three-axis joint, on the engine's axis for a single-axis joint) whatever its rotation
  was. In a tree of plain names and for an effector of the tree: the configuration read
  back from the vector is the completed one; with no sweep allowed
  (\<^verbatim>\<open>maxIterations = 0\<close>) \<^verbatim>\<open>inverseKinematics\<close> returns the completed configuration, count 0,
  and the transform map and residual read off that tree; \<^verbatim>\<open>calcJacobian\<close> returns one
  column per slot, the first being the difference quotient at the effector position for
  the completed vector with slot 0 moved by \<^verbatim>\<open>dq\<close>.
\<close>

theorem configToVector_sentinel:
  assumes "engineOn K sc"
  shows "length (configToVector K q) = qConfigLength K \<and>
         (\<forall>i. i < qConfigLength K \<and> qConfigIndexReversed K ! i \<notin> fst ` set (writes q) \<longrightarrow>
            configToVector K q ! i = SENTINEL) \<and>
         (wellShaped sc q \<longrightarrow>
            configToVector K q = configToVector K (completed K q) \<and>
            inverseKinematics L K outer q joint target A alpha limit maxIterations sc =
              inverseKinematics L K outer (completed K q) joint target A alpha limit
                maxIterations sc \<and>
            calcJacobian L K q joint pos dq A sc =
              calcJacobian L K (completed K q) joint pos dq A sc \<and>
            (\<forall>nm c. map_of (mapK K) nm = Some c \<and> (threeDof nm \<or> oneDof nm) \<and>
                     map_of q nm = None \<longrightarrow>
               rotation (snd (setConfiguration L K (completed K q) sc) ! c) =
                 (if threeDof nm then Euler SENTINEL SENTINEL SENTINEL
                  else if yup K
                    then Euler (ex (rotation (sc ! c))) SENTINEL (ez (rotation (sc ! c)))
                  else Euler (ex (rotation (sc ! c))) (ey (rotation (sc ! c))) SENTINEL)) \<and>
            (plainNames sc \<and> joint \<in> set (map name sc) \<longrightarrow>
               vectorToConfig K (configToVector K q) = Inr (completed K q) \<and>
               (\<exists>p sc1.
                  positionOf
                    (forwardKinematicsRec (snd (setConfiguration L K (completed K q) sc)) [])
                    joint = Inr p \<and>
                  inverseKinematics L K outer q joint target A alpha limit (Fin 0) sc =
                    Some (Inr (completed K q, subVectors L target p, 0,
                            forwardKinematicsRec
                              (snd (setConfiguration L K (completed K q) sc)) []), sc1)) \<and>
               (\<exists>jac sc'. calcJacobian L K q joint pos dq A sc = (Inr jac, sc') \<and>
                  length jac = qConfigLength K) \<and>
               (0 < qConfigLength K \<longrightarrow>
                  (\<exists>q2 fwd2 sc2 p2 rest sc'.
                     vectorToConfig K
                       (store (configToVector K (completed K q)) 0
                          (jsadd (elemAt (configToVector K (completed K q)) 0) dq)) = Inr q2 \<and>
                     forwardKinematics L K q2 A sc = (Inr fwd2, sc2) \<and>
                     positionOf fwd2 joint = Inr p2 \<and>
                     calcJacobian L K q joint pos dq A sc =
                       (Inr (finiteDifference L p2 pos dq # rest), sc')))))"
proof -
  have un: "slotValue q l = SENTINEL" if "l \<notin> fst ` set (writes q)" for l
  proof -
    from that have "map_of (rev (writes q)) l = None" by (simp add: map_of_eq_None_iff)
    then show ?thesis by (simp add: slotValue_def)
  qed
  have 1: "length (configToVector K q) = qConfigLength K"
    by (rule configToVector_slots(1)[OF assms])
  have 2: "configToVector K q ! i = SENTINEL"
    if "i < qConfigLength K" "qConfigIndexReversed K ! i \<notin> fst ` set (writes q)" for i
    using that by (simp add: configToVector_slots(2)[OF assms] un)
  {
    assume w: "wellShaped sc q"
    let ?q = "completed K q"
    let ?posed = "forwardKinematicsRec (snd (setConfiguration L K ?q sc)) []"
    have v: "configToVector K q = configToVector K ?q"
      by (rule completed_vector[OF assms w, symmetric])
    have ik: "inverseKinematics L K outer q joint target A alpha limit maxIterations sc =
              inverseKinematics L K outer ?q joint target A alpha limit maxIterations sc"
      by (simp add: inverseKinematics_def v)
    have jc: "calcJacobian L K q joint pos dq A sc = calcJacobian L K ?q joint pos dq A sc"
      by (simp add: calcJacobian_def v)
    have rot: "rotation (snd (setConfiguration L K ?q sc) ! c) =
                 (if threeDof nm then Euler SENTINEL SENTINEL SENTINEL
                  else if yup K
                    then Euler (ex (rotation (sc ! c))) SENTINEL (ez (rotation (sc ! c)))
                  else Euler (ex (rotation (sc ! c))) (ey (rotation (sc ! c))) SENTINEL)"
      if "map_of (mapK K) nm = Some c" "threeDof nm \<or> oneDof nm" "map_of q nm = None" for nm c
      by (rule completed_rotations[OF assms w that])
    {
      assume plain: "plainNames sc" and eff: "joint \<in> set (map name sc)"
      have rt: "vectorToConfig K (configToVector K q) = Inr ?q"
        by (rule completed_roundtrip[OF assms plain w])
      from completed_posed[OF assms w, of L A] obtain sc1 where
        fk: "forwardKinematics L K ?q A sc = (Inr ?posed, sc1)" by blast
      have "fst ` set ?posed = set (map name sc)"
        using setConfiguration_keeps[of L K ?q sc] by (simp add: forwardKinematicsRec_keys)
      with eff positionOf_ok[of joint ?posed] obtain p where p: "positionOf ?posed joint = Inr p"
        by auto
      have "inverseKinematics L K outer q joint target A alpha limit (Fin 0) sc =
              Some (Inr (?q, subVectors L target p, 0, ?posed), sc1)"
        using rt fk p by (simp add: inverseKinematics_def Let_def ikWhile_exit)
      with p have z: "\<exists>p sc1. positionOf ?posed joint = Inr p \<and>
          inverseKinematics L K outer q joint target A alpha limit (Fin 0) sc =
              Some (Inr (?q, subVectors L target p, 0, ?posed), sc1)" by blast
      note j1 = calcJacobian_columns[OF assms plain eff, of L q pos dq A]
      have j2: "\<exists>q2 fwd2 sc2 p2 rest sc'.
                     vectorToConfig K
                       (store (configToVector K ?q) 0
                          (jsadd (elemAt (configToVector K ?q) 0) dq)) = Inr q2 \<and>
                     forwardKinematics L K q2 A sc = (Inr fwd2, sc2) \<and>
                     positionOf fwd2 joint = Inr p2 \<and>
                     calcJacobian L K q joint pos dq A sc =
                       (Inr (finiteDifference L p2 pos dq # rest), sc')"
        if "0 < qConfigLength K"
        using calcJacobian_first_column[OF assms plain eff that, of q dq L A pos]
        unfolding v .
      note rt z j1 j2
    }
    note v ik jc rot this
  }
  with 1 2 show ?thesis by blast
qed

theorem configToVector_sentinel_witness:
  "engineOn bearEngine bearTree \<and>
   wellShaped bearTree [(''RJoint_Back_Lower_Z_L'', Number (Fin 1))] \<and>
   plainNames bearTree \<and> ''Effector_Back_L'' \<in> set (map name bearTree) \<and>
   (1::nat) < qConfigLength bearEngine \<and>
   qConfigIndexReversed bearEngine ! 1 \<notin>
     fst ` set (writes [(''RJoint_Back_Lower_Z_L'', Number (Fin 1))]) \<and>
   map_of (mapK bearEngine) ''RJoint_Back_Upper_XYZ_L'' = Some 1 \<and>
   threeDof ''RJoint_Back_Upper_XYZ_L'' \<and>
   map_of [(''RJoint_Back_Lower_Z_L'', Number (Fin 1))] ''RJoint_Back_Upper_XYZ_L'' = None \<and>
   completed bearEngine [(''RJoint_Back_Lower_Z_L'', Number (Fin 1))] =
     [(''RJoint_Back_Lower_Z_L'', Number (Fin 1)),
      (''RJoint_Back_Lower_Z_R'', Number (Fin (- 1000))),
      (''RJoint_Back_Upper_XYZ_L'', Rot3Angles (Fin (- 1000)) (Fin (- 1000)) (Fin (- 1000))),
      (''RJoint_Front_Lower_Z_L'', Number (Fin (- 1000))),
      (''RJoint_Front_Lower_Z_R'', Number (Fin (- 1000)))] \<and>
   length (configToVector bearEngine [(''RJoint_Back_Lower_Z_L'', Number (Fin 1))]) = 7 \<and>
   configToVector bearEngine [(''RJoint_Back_Lower_Z_L'', Number (Fin 1))] ! 1 = Fin (- 1000) \<and>
   inverseKinematics originLib bearEngine [''Scene'']
       [(''RJoint_Back_Lower_Z_L'', Number (Fin 1))] ''Effector_Back_L''
       (Vector3 (Fin 1) (Fin 0) (Fin 0)) identity4 (Fin (1/2)) (Fin (1/10000)) (Fin 100) bearTree =
     inverseKinematics originLib bearEngine [''Scene'']
       (completed bearEngine [(''RJoint_Back_Lower_Z_L'', Number (Fin 1))]) ''Effector_Back_L''
       (Vector3 (Fin 1) (Fin 0) (Fin 0)) identity4 (Fin (1/2)) (Fin (1/10000)) (Fin 100) bearTree \<and>
   calcJacobian originLib bearEngine [(''RJoint_Back_Lower_Z_L'', Number (Fin 1))]
       ''Effector_Back_L'' (Vector3 (Fin 0) (Fin 0) (Fin 0)) (Fin (1/1000)) identity4 bearTree =
     calcJacobian originLib bearEngine
       (completed bearEngine [(''RJoint_Back_Lower_Z_L'', Number (Fin 1))])
       ''Effector_Back_L'' (Vector3 (Fin 0) (Fin 0) (Fin 0)) (Fin (1/1000)) identity4 bearTree \<and>
   rotation (bearTree ! 1) = Euler (Fin 0) (Fin 0) (Fin 0) \<and>
   rotation (snd (setConfiguration originLib bearEngine
                    (completed bearEngine [(''RJoint_Back_Lower_Z_L'', Number (Fin 1))])
                    bearTree) ! 1) =
     Euler (Fin (- 1000)) (Fin (- 1000)) (Fin (- 1000)) \<and>
   vectorToConfig bearEngine (configToVector bearEngine [(''RJoint_Back_Lower_Z_L'', Number (Fin 1))]) =
     Inr (completed bearEngine [(''RJoint_Back_Lower_Z_L'', Number (Fin 1))]) \<and>
   (\<exists>p sc1 fwd.
      inverseKinematics originLib bearEngine [''Scene'']
        [(''RJoint_Back_Lower_Z_L'', Number (Fin 1))] ''Effector_Back_L''
        (Vector3 (Fin 1) (Fin 0) (Fin 0)) identity4 (Fin (1/2)) (Fin (1/10000)) (Fin 0) bearTree =
      Some (Inr (completed bearEngine [(''RJoint_Back_Lower_Z_L'', Number (Fin 1))],
                 exactSub (Vector3 (Fin 1) (Fin 0) (Fin 0)) p, 0, fwd), sc1)) \<and>
   (\<exists>jac sc'.
      calcJacobian originLib bearEngine [(''RJoint_Back_Lower_Z_L'', Number (Fin 1))]
        ''Effector_Back_L'' (Vector3 (Fin 0) (Fin 0) (Fin 0)) (Fin (1/1000)) identity4 bearTree =
        (Inr jac, sc') \<and> length jac = 7) \<and>
   (0::nat) < qConfigLength bearEngine \<and>
   (\<exists>p2 rest sc'.
      calcJacobian originLib bearEngine [(''RJoint_Back_Lower_Z_L'', Number (Fin 1))]
        ''Effector_Back_L'' (Vector3 (Fin 0) (Fin 0) (Fin 0)) (Fin (1/1000)) identity4 bearTree =
        (Inr (exactSub p2 (Vector3 (Fin 0) (Fin 0) (Fin 0)) # rest), sc'))"
proof -
  let ?q = "[(''RJoint_Back_Lower_Z_L'', Number (Fin 1))]"
  note h = engineOn_bear
  have w: "wellShaped bearTree ?q"
    by (simp add: wellShaped_def bearTree_def node_def oneDof_def startsWith_def)
  have e: "''Effector_Back_L'' \<in> set (map name bearTree)" by (simp add: bearTree_def node_def)
  have i: "(1::nat) < qConfigLength bearEngine"
    "qConfigIndexReversed bearEngine ! 1 \<notin> fst ` set (writes ?q)"
    by (simp_all add: bearEngine_fields writes_def)
  have m: "map_of (mapK bearEngine) ''RJoint_Back_Upper_XYZ_L'' = Some 1"
    "threeDof ''RJoint_Back_Upper_XYZ_L''" "map_of ?q ''RJoint_Back_Upper_XYZ_L'' = None"
    by (simp_all add: bearEngine_fields threeDof_def startsWith_def)
  have c: "completed bearEngine ?q =
     [(''RJoint_Back_Lower_Z_L'', Number (Fin 1)),
      (''RJoint_Back_Lower_Z_R'', Number (Fin (- 1000))),
      (''RJoint_Back_Upper_XYZ_L'', Rot3Angles (Fin (- 1000)) (Fin (- 1000)) (Fin (- 1000))),
      (''RJoint_Front_Lower_Z_L'', Number (Fin (- 1000))),
      (''RJoint_Front_Lower_Z_R'', Number (Fin (- 1000)))]"
    by (simp add: completed_def bearEngine_fields threeDof_def oneDof_def startsWith_def
        SENTINEL_def)
  have r0: "rotation (bearTree ! 1) = Euler (Fin 0) (Fin 0) (Fin 0)"
    by (simp add: bearTree_def node_def)
  note t = configToVector_sentinel[OF h, of ?q originLib "[''Scene'']" "''Effector_Back_L''"
      "Vector3 (Fin 1) (Fin 0) (Fin 0)" identity4 "Fin (1/2)" "Fin (1/10000)" "Fin 100"
      "Vector3 (Fin 0) (Fin 0) (Fin 0)" "Fin (1/1000)"]
  from t have 1: "length (configToVector bearEngine ?q) = 7" by (simp add: bearEngine_fields)
  from t i have 2: "configToVector bearEngine ?q ! 1 = Fin (- 1000)"
    unfolding SENTINEL_def by blast
  from t w have 3: "inverseKinematics originLib bearEngine [''Scene''] ?q ''Effector_Back_L''
       (Vector3 (Fin 1) (Fin 0) (Fin 0)) identity4 (Fin (1/2)) (Fin (1/10000)) (Fin 100) bearTree =
     inverseKinematics originLib bearEngine [''Scene''] (completed bearEngine ?q) ''Effector_Back_L''
       (Vector3 (Fin 1) (Fin 0) (Fin 0)) identity4 (Fin (1/2)) (Fin (1/10000)) (Fin 100) bearTree"
    by blast
  from t w have 4: "calcJacobian originLib bearEngine ?q
       ''Effector_Back_L'' (Vector3 (Fin 0) (Fin 0) (Fin 0)) (Fin (1/1000)) identity4 bearTree =
     calcJacobian originLib bearEngine (completed bearEngine ?q)
       ''Effector_Back_L'' (Vector3 (Fin 0) (Fin 0) (Fin 0)) (Fin (1/1000)) identity4 bearTree"
    by blast
  from t w have "\<forall>nm c. map_of (mapK bearEngine) nm = Some c \<and> (threeDof nm \<or> oneDof nm) \<and>
                     map_of ?q nm = None \<longrightarrow>
               rotation (snd (setConfiguration originLib bearEngine (completed bearEngine ?q)
                                bearTree) ! c) =
                 (if threeDof nm then Euler SENTINEL SENTINEL SENTINEL
                  else if yup bearEngine
                    then Euler (ex (rotation (bearTree ! c))) SENTINEL (ez (rotation (bearTree ! c)))
                  else Euler (ex (rotation (bearTree ! c))) (ey (rotation (bearTree ! c))) SENTINEL)"
    by blast
  from this[rule_format, of "''RJoint_Back_Upper_XYZ_L''" 1] m
  have 5: "rotation (snd (setConfiguration originLib bearEngine (completed bearEngine ?q)
                            bearTree) ! 1) =
           Euler (Fin (- 1000)) (Fin (- 1000)) (Fin (- 1000))"
    by (simp add: SENTINEL_def)
  from t w bear_plain e
  have 6: "vectorToConfig bearEngine (configToVector bearEngine ?q) = Inr (completed bearEngine ?q)"
    by blast
  from t w bear_plain e
  have "\<exists>p sc1.
      positionOf (forwardKinematicsRec
         (snd (setConfiguration originLib bearEngine (completed bearEngine ?q) bearTree)) [])
         ''Effector_Back_L'' = Inr p \<and>
      inverseKinematics originLib bearEngine [''Scene''] ?q ''Effector_Back_L''
        (Vector3 (Fin 1) (Fin 0) (Fin 0)) identity4 (Fin (1/2)) (Fin (1/10000)) (Fin 0) bearTree =
      Some (Inr (completed bearEngine ?q,
                 subVectors originLib (Vector3 (Fin 1) (Fin 0) (Fin 0)) p, 0,
                 forwardKinematicsRec
                   (snd (setConfiguration originLib bearEngine (completed bearEngine ?q) bearTree))
                   []), sc1)"
    by blast
  then have 7: "\<exists>p sc1 fwd.
      inverseKinematics originLib bearEngine [''Scene''] ?q ''Effector_Back_L''
        (Vector3 (Fin 1) (Fin 0) (Fin 0)) identity4 (Fin (1/2)) (Fin (1/10000)) (Fin 0) bearTree =
      Some (Inr (completed bearEngine ?q, exactSub (Vector3 (Fin 1) (Fin 0) (Fin 0)) p, 0, fwd), sc1)"
    by (auto simp: originLib_def)
  from t w bear_plain e
  have "\<exists>jac sc'. calcJacobian originLib bearEngine ?q
        ''Effector_Back_L'' (Vector3 (Fin 0) (Fin 0) (Fin 0)) (Fin (1/1000)) identity4 bearTree =
        (Inr jac, sc') \<and> length jac = qConfigLength bearEngine"
    by blast
  then have 8: "\<exists>jac sc'. calcJacobian originLib bearEngine ?q
        ''Effector_Back_L'' (Vector3 (Fin 0) (Fin 0) (Fin 0)) (Fin (1/1000)) identity4 bearTree =
        (Inr jac, sc') \<and> length jac = 7"
    by (simp add: bearEngine_fields)
  have z: "(0::nat) < qConfigLength bearEngine" by (simp add: bearEngine_fields)
  from t w bear_plain e z
  have "\<exists>q2 fwd2 sc2 p2 rest sc'.
          vectorToConfig bearEngine
            (store (configToVector bearEngine (completed bearEngine ?q)) 0
               (jsadd (elemAt (configToVector bearEngine (completed bearEngine ?q)) 0)
                  (Fin (1/1000)))) = Inr q2 \<and>
          forwardKinematics originLib bearEngine q2 identity4 bearTree = (Inr fwd2, sc2) \<and>
          positionOf fwd2 ''Effector_Back_L'' = Inr p2 \<and>
          calcJacobian originLib bearEngine ?q
            ''Effector_Back_L'' (Vector3 (Fin 0) (Fin 0) (Fin 0)) (Fin (1/1000)) identity4 bearTree =
            (Inr (finiteDifference originLib p2 (Vector3 (Fin 0) (Fin 0) (Fin 0)) (Fin (1/1000))
                    # rest), sc')"
    by blast
  then have 9: "\<exists>p2 rest sc'. calcJacobian originLib bearEngine ?q
        ''Effector_Back_L'' (Vector3 (Fin 0) (Fin 0) (Fin 0)) (Fin (1/1000)) identity4 bearTree =
        (Inr (exactSub p2 (Vector3 (Fin 0) (Fin 0) (Fin 0)) # rest), sc')"
    by (auto simp: originLib_def)
  from h w bear_plain e i m c 1 2 3 4 r0 5 6 7 8 z 9 show ?thesis by blast
qed

end
